theory Spec2Isabelle
  imports Main "HOL-Library.Word"
begin

unbundle bit_operations_syntax

section \<open>Machine types and header constants\<close>

text \<open>
  The modem is written for an 8-bit AVR. Bytes, counters and flags are \<open>uint8_t\<close>,
  \<open>millis()\<close> is \<open>uint32_t\<close>. The header \<open>afsk.h\<close>, which declares the members of
  class \<open>AFSK\<close>, is not among the sources modelled here; the widths of the fields
  it declares are taken as 8 bit for the flags and the per-sample and per-bit
  counters (\<open>tx.*\<close>, \<open>rx.*\<close>, \<open>fulBit\<close>, \<open>carBits\<close>) and 16 bit for the sample
  totals (\<open>cdCount\<close>, \<open>_commaCnt\<close>, \<open>_guard\<close>).
\<close>

type_synonym u8 = "8 word"
type_synonym u16 = "16 word"
type_synonym u32 = "32 word"

text \<open>
  \<open>ON\<close>/\<open>OFF\<close> and \<open>MARK\<close>/\<open>SPACE\<close> come from the header. The source tests
  \<open>if (_dialing)\<close> after \<open>_dialing = ON\<close> and leaves the dial loop after
  \<open>_dialing = OFF\<close>, so \<open>OFF\<close> is zero and \<open>ON\<close> is not; \<open>tx.dtbit = tx.data & 0x01\<close>
  indexes the same \<open>step[]\<close> array as \<open>step[SPACE]\<close> and \<open>step[MARK]\<close>, and the glossary
  of the specification gives MARK/SPACE as binary 1/0.
\<close>

definition OFF :: u8 where "OFF = 0"
definition ON :: u8 where "ON = 1"
definition SPACE :: u8 where "SPACE = 0"
definition MARK :: u8 where "MARK = 1"

datatype txrx_state = WAIT | PREAMBLE | START_BIT | DATA_BIT | STOP_BIT | TRAIL | CARRIER

datatype modem_mode = COMMAND_MODE | DATA_MODE

section \<open>The bounded ring buffer\<close>

text \<open>
  Modelled from the spec: the class \<open>FIFO\<close> (constructor, \<open>len\<close>, \<open>empty\<close>, \<open>in\<close>,
  \<open>out\<close>, \<open>clear\<close>) is used by \<open>afsk.cpp\<close> but defined elsewhere. The specification
  gives it as a ring buffer of capacity \<open>2^N\<close> with head and tail indices modulo
  the capacity, whose \<open>in()\<close> reports failure instead of overwriting when full and
  whose \<open>out()\<close> on an empty buffer is rejected. The occupancy is kept in \<open>cnt\<close> so
  that a full buffer (\<open>cnt = capacity\<close>) differs from an empty one.
\<close>

record fifo =
  buf :: "u8 list"
  head :: nat
  tail :: nat
  cnt :: nat

text \<open>
  Modelled from the spec: the constructor \<open>FIFO(N)\<close> (an empty buffer of \<open>2^N\<close>
  bytes) and the occupancy queries \<open>len()\<close>, \<open>empty()\<close> and full.
\<close>

definition FIFO :: "nat \<Rightarrow> fifo" where
  "FIFO bitsize = \<lparr>buf = replicate (2 ^ bitsize) 0, head = 0, tail = 0, cnt = 0\<rparr>"

definition capacity :: "fifo \<Rightarrow> nat" where
  "capacity f = length (buf f)"

definition fifo_len :: "fifo \<Rightarrow> nat" where
  "fifo_len f = cnt f"

definition fifo_empty :: "fifo \<Rightarrow> bool" where
  "fifo_empty f = (cnt f = 0)"

definition fifo_full :: "fifo \<Rightarrow> bool" where
  "fifo_full f = (cnt f = capacity f)"

text \<open>
  Modelled from the spec: \<open>in(byte) -> bool\<close> stores the byte at the head index and
  returns true, or returns false and changes nothing when the buffer is full.
\<close>

definition fifo_in :: "u8 \<Rightarrow> fifo \<Rightarrow> bool \<times> fifo" where
  "fifo_in x f =
     (if fifo_full f then (False, f)
      else (True, f\<lparr>buf := (buf f)[head f := x],
                     head := (head f + 1) mod capacity f,
                     cnt := cnt f + 1\<rparr>))"

text \<open>
  Modelled from the spec: \<open>out() -> byte\<close> takes the byte at the tail index;
  \<open>out()\<close> on an empty buffer is rejected, which is \<open>None\<close> here. \<open>clear()\<close> empties
  the buffer.
\<close>

definition fifo_out :: "fifo \<Rightarrow> (u8 \<times> fifo) option" where
  "fifo_out f =
     (if fifo_empty f then None
      else Some (buf f ! tail f,
                 f\<lparr>tail := (tail f + 1) mod capacity f, cnt := cnt f - 1\<rparr>))"

definition fifo_clear :: "fifo \<Rightarrow> fifo" where
  "fifo_clear f = f\<lparr>head := 0, tail := 0, cnt := 0\<rparr>"

text \<open>The bytes a buffer holds, oldest first.\<close>

definition fifo_contents :: "fifo \<Rightarrow> u8 list" where
  "fifo_contents f = map (\<lambda>i. buf f ! ((tail f + i) mod capacity f)) [0..<cnt f]"

text \<open>The representation invariant of the ring.\<close>

definition fifo_wf :: "fifo \<Rightarrow> bool" where
  "fifo_wf f = (0 < capacity f \<and> cnt f \<le> capacity f \<and> tail f < capacity f \<and>
                head f = (tail f + cnt f) mod capacity f)"

text \<open>A sequence of calls on one buffer; a rejected \<open>out()\<close> changes nothing.\<close>

datatype fifo_call = In u8 | Out

fun fifo_calls :: "fifo_call list \<Rightarrow> fifo \<Rightarrow> fifo" where
  "fifo_calls [] f = f"
| "fifo_calls (In x # cs) f = fifo_calls cs (snd (fifo_in x f))"
| "fifo_calls (Out # cs) f =
     fifo_calls cs (case fifo_out f of None \<Rightarrow> f | Some (x, f') \<Rightarrow> f')"

text \<open>The queues of \<open>afsk.cpp\<close> and the flow-control thresholds derived from their size.\<close>

definition fifoSize :: u8 where "fifoSize = 6"
definition fifoLow :: u8 where "fifoLow = push_bit (unat (fifoSize - 2)) 1"
definition fifoMed :: u8 where "fifoMed = push_bit (unat (fifoSize - 1)) 1"
definition fifoHgh :: u8 where "fifoHgh = push_bit (unat fifoSize) 1 - fifoLow"


section \<open>The modem state\<close>

text \<open>
  The members of class \<open>AFSK\<close> that the modelled functions touch, the globals of
  \<open>afsk.cpp\<close> (the two byte queues), the fields of the configuration \<open>cfg\<close> they
  read or write, the function-local statics of \<open>doSIO\<close> and \<open>txHandle\<close>, and the
  hardware they drive: the port register \<open>PORTB\<close>, the PWM compare register
  written by \<open>DAC\<close>, and the serial port as a pending input buffer and the list of
  bytes written. The state of the tone-dial generator \<open>dtmf\<close> is a type parameter.
\<close>

record 'd modem =
  tx_active :: u8
  tx_carrier :: u8
  tx_state :: txrx_state
  tx_dtbit :: u8
  tx_data :: u8
  tx_bits :: u8
  tx_clk :: u8
  tx_idx :: u8
  rx_carrier :: u8
  rx_state :: txrx_state
  rx_data :: u8
  rx_bits :: u8
  rx_clk :: u8
  rx_bitsum :: u8
  rx_stream :: u8
  fulBit :: u8
  hlfBit :: u8
  qrtBit :: u8
  octBit :: u8
  carBits :: u8
  dtbits :: u8
  fsqTX_step :: "u8 \<Rightarrow> u8"
  cdCount :: u16
  cdTotal :: u16
  mode :: modem_mode
  flowControl :: bool
  guard :: u16
  dialing :: u8
  dialChar :: u8
  commaCnt :: u16
  commaMax :: u16
  dtmf :: 'd
  sregs :: "nat \<Rightarrow> u8"
  cfg_flwctr :: u8
  cfg_dtecho :: u8
  cfg_txcarr :: u8
  txFIFO :: fifo
  rxFIFO :: fifo
  escCount :: u8
  escFirst :: u32
  escLast :: u32
  lstChar :: u32
  PORTB :: u8
  OCR2 :: u8
  serial_in :: "u8 list"
  serial_out :: "u8 list"

text \<open>
  The collaborators outside \<open>afsk.cpp\<close>: the wave table of the oscillator and the
  DTMF generator (\<open>getSample()\<close> advances the generator and says whether a sample is
  ready, \<open>sample\<close> is that sample, \<open>send\<close> starts a tone).
\<close>

record 'd services =
  wave_sample :: "u8 \<Rightarrow> u8"
  dtmf_getSample :: "'d \<Rightarrow> bool \<times> 'd"
  dtmf_sample :: "'d \<Rightarrow> u8"
  dtmf_send :: "u8 \<Rightarrow> 'd \<Rightarrow> 'd"

subsection \<open>Set-up\<close>

text \<open>\<open>AFSK::init\<close>, the guard time: \<open>_guard = cfg->sregs[12] * 20\<close>.\<close>

definition init_guard :: "'d modem \<Rightarrow> 'd modem" where
  "init_guard s = s\<lparr>guard := word_of_nat (unat (sregs s 12) * 20)\<rparr>"

text \<open>
  \<open>AFSK::setModemType\<close>, the bit timing: \<open>fulBit = F_SAMPLE / cfgAFSK.baud\<close> and its
  half, quarter and eighth by right shifts. The sampling rate and the baud rate are
  parameters (the header and the modem profiles are declared outside \<open>afsk.cpp\<close>).
  For a baud rate of zero the C division is undefined; the division of HOL gives 0
  there, and nothing below is stated about that case.
\<close>

definition setModemType_timing :: "nat \<Rightarrow> nat \<Rightarrow> 'd modem \<Rightarrow> 'd modem" where
  "setModemType_timing f_sample baud s =
     (let s1 = s\<lparr>fulBit := word_of_nat (f_sample div baud)\<rparr>;
          s2 = s1\<lparr>hlfBit := drop_bit 1 (fulBit s1)\<rparr>;
          s3 = s2\<lparr>qrtBit := drop_bit 1 (hlfBit s2)\<rparr>
      in s3\<lparr>octBit := drop_bit 1 (qrtBit s3)\<rparr>)"

text \<open>\<open>AFSK::setMode\<close> and \<open>AFSK::setCarrier\<close>.\<close>

definition setMode :: "modem_mode \<Rightarrow> 'd modem \<Rightarrow> 'd modem" where
  "setMode m s = s\<lparr>mode := m\<rparr>"

definition setCarrier :: "u8 \<Rightarrow> 'd modem \<Rightarrow> 'd modem" where
  "setCarrier onoff s = s\<lparr>tx_carrier := onoff AND cfg_txcarr s\<rparr>"

section \<open>The TX modulator\<close>

text \<open>
  The \<open>switch (tx.state)\<close> of \<open>AFSK::txHandle\<close>, run once a bit period has been sent.
  A guarded \<open>txFIFO.out()\<close> (\<open>if (not txFIFO.empty())\<close>) is the \<open>Some\<close> case of
  \<open>fifo_out\<close>. \<open>++tx.bits\<close> is evaluated before the comparison and before the test
  of \<open>tx.carrier\<close>.
\<close>

definition txNextBit :: "'d modem \<Rightarrow> 'd modem" where
  "txNextBit s =
     (case tx_state s of
        WAIT \<Rightarrow>
          (let s1 = s\<lparr>tx_dtbit := MARK\<rparr> in
           case fifo_out (txFIFO s1) of
             Some (x, f) \<Rightarrow> s1\<lparr>tx_data := x, txFIFO := f, tx_state := PREAMBLE, tx_bits := 0\<rparr>
           | None \<Rightarrow> s1\<lparr>tx_state := WAIT\<rparr>)
      | PREAMBLE \<Rightarrow>
          (let s1 = s\<lparr>tx_bits := tx_bits s + 1\<rparr> in
           if carBits s1 \<le> tx_bits s1 \<or> tx_carrier s1 = ON
           then s1\<lparr>tx_state := START_BIT, tx_dtbit := SPACE\<rparr>
           else s1)
      | START_BIT \<Rightarrow>
          s\<lparr>tx_state := DATA_BIT, tx_dtbit := tx_data s AND 1,
            tx_data := drop_bit 1 (tx_data s), tx_bits := 0\<rparr>
      | DATA_BIT \<Rightarrow>
          (let s1 = s\<lparr>tx_bits := tx_bits s + 1\<rparr> in
           if tx_bits s1 < dtbits s1
           then s1\<lparr>tx_dtbit := tx_data s1 AND 1, tx_data := drop_bit 1 (tx_data s1)\<rparr>
           else s1\<lparr>tx_state := STOP_BIT, tx_dtbit := MARK\<rparr>)
      | STOP_BIT \<Rightarrow>
          (case fifo_out (txFIFO s) of
             None \<Rightarrow> s\<lparr>tx_state := TRAIL, tx_dtbit := MARK, tx_bits := 0\<rparr>
           | Some (x, f) \<Rightarrow> s\<lparr>tx_state := START_BIT, tx_dtbit := SPACE, tx_data := x, txFIFO := f\<rparr>)
      | TRAIL \<Rightarrow>
          (let s1 = s\<lparr>tx_bits := tx_bits s + 1\<rparr> in
           if carBits s1 < tx_bits s1
           then s1\<lparr>tx_active := OFF, tx_state := WAIT, PORTB := PORTB s1 AND NOT 2\<rparr>
           else if tx_bits s1 = carBits s1 \<and> tx_carrier s1 = OFF
           then s1\<lparr>tx_dtbit := MARK, tx_idx := 0, tx_clk := 0\<rparr>
           else (case fifo_out (txFIFO s1) of
                   Some (x, f) \<Rightarrow> s1\<lparr>tx_state := START_BIT, tx_dtbit := SPACE, tx_data := x, txFIFO := f\<rparr>
                 | None \<Rightarrow> s1))
      | CARRIER \<Rightarrow> s)"

text \<open>
  The tone-dial branch of \<open>AFSK::txHandle\<close> (\<open>else if (_dialing)\<close>); \<open>dialChar\<close> is
  its function-local static, 44 is the comma.
\<close>

definition txDial :: "'d services \<Rightarrow> 'd modem \<Rightarrow> 'd modem" where
  "txDial sv s =
     (if dialChar s = 44 then
        (let c = commaCnt s; s1 = s\<lparr>commaCnt := c + 1\<rparr> in
         if commaMax s1 \<le> c then s1\<lparr>dialChar := 0, commaCnt := 0\<rparr> else s1)
      else
        (let r = dtmf_getSample sv (dtmf s); s1 = s\<lparr>dtmf := snd r\<rparr> in
         if fst r then s1\<lparr>OCR2 := dtmf_sample sv (dtmf s1)\<rparr>
         else (case fifo_out (txFIFO s1) of
                 Some (x, f) \<Rightarrow>
                   (let s2 = s1\<lparr>dialChar := x, txFIFO := f\<rparr> in
                    if x \<noteq> 44 then s2\<lparr>dtmf := dtmf_send sv x (dtmf s2)\<rparr> else s2)
               | None \<Rightarrow> s1\<lparr>dialing := OFF\<rparr>)))"

text \<open>
  \<open>AFSK::txHandle\<close>, called for each output sample. \<open>tx.clk++ >= fulBit\<close> compares
  the old value of the counter and then increments it.
\<close>

definition txHandle :: "'d services \<Rightarrow> 'd modem \<Rightarrow> 'd modem" where
  "txHandle sv s =
     (if tx_active s = ON \<or> tx_carrier s = ON then
        (let sample = wave_sample sv (tx_idx s);
             s1 = s\<lparr>OCR2 := sample\<rparr>;
             s2 = s1\<lparr>tx_idx := tx_idx s1 + fsqTX_step s1 (tx_dtbit s1)\<rparr>;
             c = tx_clk s2;
             s3 = s2\<lparr>tx_clk := c + 1\<rparr>
         in if fulBit s3 \<le> c then txNextBit (s3\<lparr>tx_clk := 0\<rparr>) else s3)
      else if dialing s \<noteq> 0 then txDial sv s
      else s)"

text \<open>
  What is seen at the framing boundary: over \<open>n\<close> calls of \<open>txHandle\<close>, the
  state and the symbol \<open>tx.dtbit\<close> chosen by each call that ends a bit period
  (a call that finds \<open>tx.clk >= fulBit\<close> while transmitting).
\<close>

definition tx_on :: "'d modem \<Rightarrow> bool" where
  "tx_on s = (tx_active s = ON \<or> tx_carrier s = ON)"

definition tx_boundary :: "'d modem \<Rightarrow> bool" where
  "tx_boundary s = (tx_on s \<and> fulBit s \<le> tx_clk s)"

fun txSymbols :: "'d services \<Rightarrow> nat \<Rightarrow> 'd modem \<Rightarrow> (txrx_state \<times> u8) list" where
  "txSymbols sv 0 s = []"
| "txSymbols sv (Suc n) s =
     (if tx_boundary s then [(tx_state (txHandle sv s), tx_dtbit (txHandle sv s))] else [])
     @ txSymbols sv n (txHandle sv s)"

fun txRun :: "'d services \<Rightarrow> nat \<Rightarrow> 'd modem \<Rightarrow> 'd modem" where
  "txRun sv 0 s = s"
| "txRun sv (Suc n) s = txRun sv n (txHandle sv s)"

text \<open>
  The same at the level of bit periods: the state and symbol after each of \<open>n\<close>
  boundaries, the state reached, and whether the modulator is transmitting at each
  of them.
\<close>

fun txFrames :: "nat \<Rightarrow> 'd modem \<Rightarrow> (txrx_state \<times> u8) list" where
  "txFrames 0 s = []"
| "txFrames (Suc n) s = (tx_state (txNextBit s), tx_dtbit (txNextBit s)) # txFrames n (txNextBit s)"

fun txIter :: "nat \<Rightarrow> 'd modem \<Rightarrow> 'd modem" where
  "txIter 0 s = s"
| "txIter (Suc n) s = txIter n (txNextBit s)"

fun tx_live :: "nat \<Rightarrow> 'd modem \<Rightarrow> bool" where
  "tx_live 0 s = True"
| "tx_live (Suc n) s = (tx_on s \<and> tx_live n (txNextBit s))"

text \<open>
  Two states that differ at most in the phase accumulator \<open>tx.idx\<close>, the sample
  counter \<open>tx.clk\<close> and the value last sent to the DAC.
\<close>

definition tx_norm :: "'d modem \<Rightarrow> 'd modem" where
  "tx_norm s = s\<lparr>OCR2 := 0, tx_idx := 0, tx_clk := 0\<rparr>"

definition tx_sim :: "'d modem \<Rightarrow> 'd modem \<Rightarrow> bool" where
  "tx_sim s t = (tx_norm s = tx_norm t)"

text \<open>
  The frame of a byte \<open>x\<close> with \<open>n\<close> data bits as it follows the preamble: the
  start bit, bit \<open>j\<close> of \<open>x\<close> for \<open>j = 0, ..., n - 1\<close>, the stop bit. The number of
  bit periods the preamble lasts when the modulator leaves \<open>WAIT\<close>.
\<close>

definition frame_of :: "nat \<Rightarrow> u8 \<Rightarrow> (txrx_state \<times> u8) list" where
  "frame_of n x =
     (START_BIT, SPACE) # map (\<lambda>j. (DATA_BIT, drop_bit j x AND 1)) [0..<n] @ [(STOP_BIT, MARK)]"

definition preamble_periods :: "'d modem \<Rightarrow> nat" where
  "preamble_periods s = (if tx_carrier s = ON then 1 else max 1 (unat (carBits s)))"

text \<open>The frame of the byte 0x41 with eight data bits, written out.\<close>

definition frame_0x41 :: "(txrx_state \<times> u8) list" where
  "frame_0x41 =
     [(START_BIT, SPACE),
      (DATA_BIT, 1), (DATA_BIT, 0), (DATA_BIT, 0), (DATA_BIT, 0),
      (DATA_BIT, 0), (DATA_BIT, 0), (DATA_BIT, 1), (DATA_BIT, 0),
      (STOP_BIT, MARK)]"

section \<open>The RX decoder\<close>

text \<open>
  \<open>AFSK::rxDecoder\<close>, called with each decoded sample bit. The build is the one
  without \<open>DEBUG_RX\<close>. The return value of \<open>rxFIFO.in\<close> is not used by the source.
\<close>

definition rxDecoder :: "u8 \<Rightarrow> 'd modem \<Rightarrow> 'd modem" where
  "rxDecoder bt s0 =
     (let s = s0\<lparr>rx_bitsum := rx_bitsum s0 + bt,
                 rx_stream := push_bit 1 (rx_stream s0) OR bt,
                 rx_clk := rx_clk s0 + 1\<rparr> in
      case rx_state s of
        CARRIER \<Rightarrow>
          (if bt \<noteq> 0 then
             (let s1 = s\<lparr>cdCount := cdCount s + 1\<rparr> in
              if cdTotal s1 \<le> cdCount s1 then s1\<lparr>rx_carrier := ON, rx_state := WAIT\<rparr> else s1)
           else s\<lparr>cdCount := 0\<rparr>)
      | WAIT \<Rightarrow>
          (if rx_stream s AND 3 = 2
           then s\<lparr>rx_state := PREAMBLE, rx_clk := 0, rx_bitsum := 0\<rparr>
           else s)
      | PREAMBLE \<Rightarrow>
          (if hlfBit s \<le> rx_clk s then
             (if octBit s < rx_bitsum s
              then s\<lparr>rx_state := WAIT, PORTB := PORTB s AND NOT 1\<rparr>
              else s\<lparr>rx_state := START_BIT, PORTB := PORTB s OR 1\<rparr>)
           else s)
      | START_BIT \<Rightarrow>
          (if fulBit s \<le> rx_clk s then
             (if qrtBit s < rx_bitsum s
              then s\<lparr>rx_state := WAIT, PORTB := PORTB s AND NOT 1\<rparr>
              else s\<lparr>rx_state := DATA_BIT, rx_data := 0, rx_clk := 0, rx_bitsum := 0, rx_bits := 0\<rparr>)
           else s)
      | DATA_BIT \<Rightarrow>
          (if fulBit s \<le> rx_clk s then
             (let s1 = s\<lparr>rx_data := drop_bit 1 (rx_data s)\<rparr>;
                  s2 = s1\<lparr>rx_data := rx_data s1 OR (if hlfBit s1 < rx_bitsum s1 then 128 else 0)\<rparr>;
                  s3 = s2\<lparr>rx_bits := rx_bits s2 + 1\<rparr>
              in if rx_bits s3 < dtbits s3
                 then s3\<lparr>rx_clk := 0, rx_bitsum := 0\<rparr>
                 else s3\<lparr>rx_state := STOP_BIT, rx_clk := hlfBit s3, rx_bitsum := 0\<rparr>)
           else s)
      | STOP_BIT \<Rightarrow>
          (if fulBit s \<le> rx_clk s then
             (let s1 = (if qrtBit s < rx_bitsum s
                        then s\<lparr>rxFIFO := snd (fifo_in (rx_data s) (rxFIFO s))\<rparr>
                        else s)
              in s1\<lparr>rx_state := WAIT, PORTB := PORTB s1 AND NOT 1\<rparr>)
           else s)
      | TRAIL \<Rightarrow> s)"

text \<open>Feeding the decoder a run of decoded bits, one call per sample.\<close>

fun rxFeed :: "u8 list \<Rightarrow> 'd modem \<Rightarrow> 'd modem" where
  "rxFeed [] s = s"
| "rxFeed (b # bs) s = rxFeed bs (rxDecoder b s)"

text \<open>The number of HIGH samples in a run.\<close>

definition highs :: "u8 list \<Rightarrow> nat" where
  "highs bs = length (filter (\<lambda>b. b = 1) bs)"

text \<open>
  The number of samples a state of the decoder waits for (\<open>rx.clk >= hlfBit\<close> in
  PREAMBLE, \<open>rx.clk >= fulBit\<close> in the states of the \<open>default\<close> branch), and the
  relation \<open>setModemType\<close> sets up between the four bit times.
\<close>

definition rx_limit :: "'d modem \<Rightarrow> u8" where
  "rx_limit s = (if rx_state s = PREAMBLE then hlfBit s else fulBit s)"

definition rx_timing :: "'d modem \<Rightarrow> bool" where
  "rx_timing s = (hlfBit s = drop_bit 1 (fulBit s) \<and> qrtBit s = drop_bit 2 (fulBit s) \<and>
                  octBit s = drop_bit 3 (fulBit s))"

section \<open>The serial bridge\<close>

text \<open>
  The serial port of the Arduino core: \<open>peek()\<close> and \<open>read()\<close> return an \<open>int\<close>, the
  next pending byte or \<open>-1\<close> when nothing is pending; \<open>write\<close> sends one byte.
\<close>

definition serial_peek :: "'d modem \<Rightarrow> int" where
  "serial_peek s = (case serial_in s of [] \<Rightarrow> - 1 | c # cs \<Rightarrow> uint c)"

definition serial_read :: "'d modem \<Rightarrow> int \<times> 'd modem" where
  "serial_read s = (case serial_in s of [] \<Rightarrow> (- 1, s) | c # cs \<Rightarrow> (uint c, s\<lparr>serial_in := cs\<rparr>))"

definition serial_write :: "u8 \<Rightarrow> 'd modem \<Rightarrow> 'd modem" where
  "serial_write c s = s\<lparr>serial_out := serial_out s @ [c]\<rparr>"

text \<open>The acknowledgement \<open>"\r\nOK\r\n"\<close> as bytes.\<close>

definition ok_reply :: "u8 list" where
  "ok_reply = [13, 10, 79, 75, 13, 10]"

text \<open>
  \<open>AFSK::doSIO\<close>, first part: \<open>if (escCount == 3) ...\<close>. The guard silence is
  \<open>cfg->sregs[12] * 20\<close>, compared with the unsigned 32-bit difference of the times.
  \<open>available\<close> was sampled at the start of the call.
\<close>

definition doSIO_escape :: "u32 \<Rightarrow> bool \<Rightarrow> 'd modem \<Rightarrow> 'd modem" where
  "doSIO_escape now available s =
     (if escCount s = 3 then
        (if unat (sregs s 12) * 20 < unat (now - escLast s) then
           (let s1 = setMode COMMAND_MODE s; s2 = s1\<lparr>escCount := 0\<rparr>
            in s2\<lparr>serial_out := serial_out s2 @ ok_reply\<rparr>)
         else if available then
           (let c = (word_of_int (serial_peek s) :: u8) in
            if c = 13 \<or> c = 10 then snd (serial_read s)
            else s\<lparr>escCount := 0\<rparr>)
         else s)
      else s)"

text \<open>Second part: \<open>if (available) ...\<close>, counting the escape characters (S2).\<close>

definition doSIO_count :: "u32 \<Rightarrow> bool \<Rightarrow> 'd modem \<Rightarrow> 'd modem" where
  "doSIO_count now available s =
     (if available then
        (if serial_peek s = uint (sregs s 2) then
           (if unat (guard s) < unat (now - escFirst s) then
              (if unat (guard s) \<le> unat (now - lstChar s)
               then s\<lparr>escCount := 1, escFirst := now\<rparr>
               else s)
            else
              (let s1 = s\<lparr>escCount := escCount s + 1\<rparr> in
               if escCount s1 = 3 then s1\<lparr>escLast := now\<rparr> else s1))
         else s)
      else s)"

text \<open>
  Third part: \<open>if (this->_mode != COMMAND_MODE) ...\<close>, the data path and the flow
  control. \<open>if (cfg->flwctr = 4)\<close> is an assignment: it stores 4 in the configuration
  and its value, 4, is the condition, so the \<open>else if (cfg->flwctr = 3)\<close> branch is
  never reached.
\<close>

definition doSIO_take :: "u32 \<Rightarrow> bool \<Rightarrow> 'd modem \<Rightarrow> 'd modem" where
  "doSIO_take now available s =
     (if fifo_len (txFIFO s) < unat fifoHgh then
        (if available \<and> (fifo_len (txFIFO s) < unat fifoMed \<or> \<not> flowControl s) then
           (let r = serial_read s;
                c = (word_of_int (fst r) :: u8);
                s1 = snd r;
                q = fifo_in c (txFIFO s1);
                s2 = s1\<lparr>txFIFO := snd q\<rparr>;
                s3 = (if fst q then (if cfg_dtecho s2 \<noteq> 0 then serial_write c s2 else s2) else s2);
                s4 = s3\<lparr>lstChar := now\<rparr>;
                s5 = s4\<lparr>tx_active := ON\<rparr>
            in s5\<lparr>PORTB := PORTB s5 OR 2\<rparr>)
         else s)
      else if \<not> flowControl s \<and> cfg_flwctr s \<noteq> 0 then
        (let s1 = s\<lparr>cfg_flwctr := 4\<rparr>;
             s2 = (if cfg_flwctr s1 \<noteq> 0 then serial_write 19 s1
                   else (let s1' = s1\<lparr>cfg_flwctr := 3\<rparr> in
                         if cfg_flwctr s1' \<noteq> 0 then s1'\<lparr>PORTB := PORTB s1' AND NOT 4\<rparr> else s1'))
         in s2\<lparr>flowControl := True\<rparr>)
      else s)"

definition doSIO_release :: "'d modem \<Rightarrow> 'd modem" where
  "doSIO_release s =
     (if flowControl s \<and> fifo_len (txFIFO s) < unat fifoLow then
        (let s1 = s\<lparr>cfg_flwctr := 4\<rparr>;
             s2 = (if cfg_flwctr s1 \<noteq> 0 then serial_write 17 s1
                   else (let s1' = s1\<lparr>cfg_flwctr := 3\<rparr> in
                         if cfg_flwctr s1' \<noteq> 0 then s1'\<lparr>PORTB := PORTB s1' OR 4\<rparr> else s1'))
         in s2\<lparr>flowControl := False\<rparr>)
      else s)"

definition doSIO_drain :: "'d modem \<Rightarrow> 'd modem" where
  "doSIO_drain s =
     (case fifo_out (rxFIFO s) of
        Some (c, f) \<Rightarrow> serial_write c (s\<lparr>rxFIFO := f\<rparr>)
      | None \<Rightarrow> s)"

definition doSIO_data :: "u32 \<Rightarrow> bool \<Rightarrow> 'd modem \<Rightarrow> bool \<times> 'd modem" where
  "doSIO_data now available s =
     (if mode s \<noteq> COMMAND_MODE
      then (True, doSIO_drain (doSIO_release (doSIO_take now available s)))
      else (False, s))"

text \<open>The whole call; \<open>now\<close> is the value of \<open>millis()\<close>.\<close>

definition doSIO :: "u32 \<Rightarrow> 'd modem \<Rightarrow> bool \<times> 'd modem" where
  "doSIO now s =
     (let available = (serial_in s \<noteq> [])
      in doSIO_data now available (doSIO_count now available (doSIO_escape now available s)))"

text \<open>A byte arriving on the serial line between two calls.\<close>

definition arrive :: "u8 \<Rightarrow> 'd modem \<Rightarrow> 'd modem" where
  "arrive c s = s\<lparr>serial_in := serial_in s @ [c]\<rparr>"

text \<open>
  Characters typed at given times: each arrives and is followed by a call of the
  bridge at that time.
\<close>

fun typed :: "(u32 \<times> u8) list \<Rightarrow> 'd modem \<Rightarrow> 'd modem" where
  "typed [] s = s"
| "typed ((t, c) # xs) s = typed xs (snd (doSIO t (arrive c s)))"

section \<open>A concrete modem\<close>

text \<open>
  A modem in data mode at 300 baud and 9600 samples per second (32 samples per
  bit), with the escape character \<open>+\<close> in S2 and a guard time of one second
  (S12 = 50), empty queues of size \<open>2^6\<close>, a preamble of 3 bit periods and 8
  data bits. The properties below are instantiated on it.
\<close>

definition modem0 :: "unit modem" where
  "modem0 = init_guard (setModemType_timing 9600 300
     \<lparr>tx_active = OFF, tx_carrier = OFF, tx_state = WAIT, tx_dtbit = MARK,
      tx_data = 0, tx_bits = 0, tx_clk = 0, tx_idx = 0,
      rx_carrier = OFF, rx_state = WAIT, rx_data = 0, rx_bits = 0,
      rx_clk = 0, rx_bitsum = 0, rx_stream = 0,
      fulBit = 0, hlfBit = 0, qrtBit = 0, octBit = 0,
      carBits = 3, dtbits = 8,
      fsqTX_step = (\<lambda>b. if b = MARK then 34 else 29),
      cdCount = 0, cdTotal = 0,
      mode = DATA_MODE, flowControl = False, guard = 0,
      dialing = OFF, dialChar = 0, commaCnt = 0, commaMax = 0, dtmf = (),
      sregs = (\<lambda>i. if i = 2 then 43 else if i = 12 then 50 else 0),
      cfg_flwctr = 0, cfg_dtecho = 0, cfg_txcarr = 1,
      txFIFO = FIFO (unat fifoSize), rxFIFO = FIFO (unat fifoSize),
      escCount = 0, escFirst = 0, escLast = 0, lstChar = 0,
      PORTB = 0, OCR2 = 0, serial_in = [], serial_out = []\<rparr>)"

definition sv0 :: "unit services" where
  "sv0 = \<lparr>wave_sample = (\<lambda>i. i), dtmf_getSample = (\<lambda>d. (False, d)),
          dtmf_sample = (\<lambda>d. 0), dtmf_send = (\<lambda>c d. d)\<rparr>"

text \<open>
  The state after the serial bridge has accepted the byte 0x41 into the empty TX
  queue and switched the transmitter on; a modulator in the first bit period of
  its preamble, at the last sample of that period, with the forced carrier off and
  on.
\<close>

definition tx0 :: "unit modem" where
  "tx0 = modem0\<lparr>tx_active := ON, txFIFO := snd (fifo_in 0x41 (txFIFO modem0))\<rparr>"

definition pre_off :: "unit modem" where
  "pre_off = modem0\<lparr>tx_active := ON, tx_state := PREAMBLE, tx_clk := 32\<rparr>"

definition pre_on :: "unit modem" where
  "pre_on = pre_off\<lparr>tx_carrier := ON\<rparr>"

definition pre_start :: "unit modem" where
  "pre_start = modem0\<lparr>tx_active := ON, tx_state := PREAMBLE\<rparr>"

text \<open>
  A window of 16 decoded samples, three of them HIGH; the decoder after a HIGH
  and a LOW sample, the edge that may begin a start bit; a decoder that has just
  assembled the byte 0x41 and enters STOP_BIT; a stop-bit window of 16 samples,
  all HIGH.
\<close>

definition noisy_start :: "u8 list" where
  "noisy_start = [1, 1, 1, 0, 0, 0, 0, 0, 0, 0, 0, 0, 0, 0, 0, 0]"

definition rx_edge :: "unit modem" where
  "rx_edge = rxFeed [1, 0] modem0"

definition rx_stop :: "unit modem" where
  "rx_stop = modem0\<lparr>rx_state := STOP_BIT, rx_data := 0x41, rx_bits := 8, rx_clk := 16\<rparr>"

definition stop_window :: "u8 list" where
  "stop_window = replicate 16 1"

text \<open>
  A queue of size \<open>2^6\<close> that holds \<open>n\<close> bytes, and the modem in data mode with
  XON/XOFF flow control configured (\<open>flwctr = 4\<close>), \<open>n\<close> bytes in the TX queue, the
  backpressure flag \<open>fc\<close> and the bytes \<open>inp\<close> pending on the serial line.
\<close>

definition fifo_filled :: "nat \<Rightarrow> fifo" where
  "fifo_filled n = \<lparr>buf = replicate 64 85, head = n mod 64, tail = 0, cnt = n\<rparr>"

definition sio :: "nat \<Rightarrow> bool \<Rightarrow> u8 list \<Rightarrow> unit modem" where
  "sio n fc inp = modem0\<lparr>cfg_flwctr := 4, txFIFO := fifo_filled n, flowControl := fc,
                          serial_in := inp\<rparr>"

text \<open>
  The same with no flow control configured (\<open>flwctr = 0\<close>) and with RTS/CTS
  configured (\<open>flwctr = 3\<close>) and the control line PB2 high.
\<close>

definition sio_none :: "nat \<Rightarrow> unit modem" where
  "sio_none n = modem0\<lparr>txFIFO := fifo_filled n\<rparr>"

definition sio_rts :: "nat \<Rightarrow> bool \<Rightarrow> unit modem" where
  "sio_rts n fc = modem0\<lparr>cfg_flwctr := 3, txFIFO := fifo_filled n, flowControl := fc,
                          PORTB := 4\<rparr>"

section \<open>Properties of the ring buffer\<close>

lemma mod_add_cancel_le: 
  assumes "(a + i) mod c = (a + j) mod c" "i \<le> j" "j < (c::nat)"
  shows "i = j"
proof -
  have "c dvd (a + j) - (a + i)"
    using assms(1) [symmetric] assms(2) by (simp add: mod_eq_dvd_iff_nat)
  then have "c dvd j - i" by simp
  moreover have "j - i < c" using assms by simp
  ultimately have "j - i = 0" by (meson dvd_imp_le not_less zero_less_iff_neq_zero)
  then show ?thesis using assms by simp
qed

lemma mod_add_cancel_nat: 
  "(a + i) mod c = (a + j) mod c \<Longrightarrow> i < c \<Longrightarrow> j < c \<Longrightarrow> i = (j::nat)"
  using mod_add_cancel_le [of a i c j] mod_add_cancel_le [of a j c i]
  by (cases "i \<le> j") auto

lemma fifo_wf_FIFO: "fifo_wf (FIFO n)"
  by (simp add: fifo_wf_def FIFO_def capacity_def)

lemma capacity_FIFO: "capacity (FIFO n) = 2 ^ n"
  by (simp add: FIFO_def capacity_def)

lemma capacity_fifo_in: "capacity (snd (fifo_in x f)) = capacity f"
  by (simp add: fifo_in_def capacity_def)

lemma capacity_fifo_out: "fifo_out f = Some (x, f') \<Longrightarrow> capacity f' = capacity f"
  by (auto simp: fifo_out_def capacity_def split: if_splits)

lemma fifo_wf_in: "fifo_wf f \<Longrightarrow> fifo_wf (snd (fifo_in x f))"
  by (auto simp: fifo_wf_def fifo_in_def fifo_full_def capacity_def mod_simps)

lemma fifo_wf_out: "fifo_wf f \<Longrightarrow> fifo_out f = Some (x, f') \<Longrightarrow> fifo_wf f'"
  apply (clarsimp simp: fifo_wf_def fifo_out_def fifo_empty_def capacity_def mod_simps split: if_splits)
  using mod_if by fastforce

lemma fifo_out_None: "(fifo_out f = None) = fifo_empty f"
  by (simp add: fifo_out_def)

lemma length_fifo_contents: "length (fifo_contents f) = fifo_len f"
  by (simp add: fifo_contents_def fifo_len_def)

lemma fifo_contents_in:
  assumes "fifo_wf f" "\<not> fifo_full f"
  shows "fifo_contents (snd (fifo_in x f)) = fifo_contents f @ [x]"
proof -
  let ?c = "capacity f"
  have c: "0 < ?c" "cnt f < ?c" "tail f < ?c" "head f = (tail f + cnt f) mod ?c"
    using assms by (auto simp: fifo_wf_def fifo_full_def)
  have hl: "head f < length (buf f)" using c by (simp add: capacity_def)
  have ne: "head f \<noteq> (tail f + i) mod ?c" if "i < cnt f" for i
  proof
    assume e: "head f = (tail f + i) mod ?c"
    then have "(tail f + i) mod ?c = (tail f + cnt f) mod ?c" using c by simp
    then have "i = cnt f" using that c by (intro mod_add_cancel_nat [of "tail f" i ?c]) auto
    then show False using that by simp
  qed
  have "map (\<lambda>i. (buf f)[head f := x] ! ((tail f + i) mod ?c)) [0..<cnt f] =
        map (\<lambda>i. buf f ! ((tail f + i) mod ?c)) [0..<cnt f]"
    using ne by (intro map_cong) (auto simp: nth_list_update_neq)
  moreover have "(buf f)[head f := x] ! ((tail f + cnt f) mod ?c) = x"
    using c hl by simp
  ultimately show ?thesis
    using assms(2) by (simp add: fifo_contents_def fifo_in_def capacity_def)
qed

lemma fifo_contents_out:
  assumes "fifo_wf f" "fifo_out f = Some (x, f')"
  shows "fifo_contents f = x # fifo_contents f'"
proof -
  let ?c = "capacity f"
  have c: "0 < ?c" "0 < cnt f" "tail f < ?c" 
    and x: "x = buf f ! tail f" 
    and f': "f' = f\<lparr>tail := (tail f + 1) mod ?c, cnt := cnt f - 1\<rparr>"
    using assms by (auto simp: fifo_wf_def fifo_out_def fifo_empty_def split: if_splits)
  obtain k where k: "cnt f = Suc k"
    using c(2) by (cases "cnt f") auto
  have "[0..<Suc k] = 0 # [Suc 0..<Suc k]"
    by (rule upt_conv_Cons) simp
  then have "[0..<cnt f] = 0 # map Suc [0..<cnt f - 1]"
    by (simp only: k map_Suc_upt diff_Suc_1)
  then have "fifo_contents f = buf f ! (tail f mod ?c) # map (\<lambda>i. buf f ! ((tail f + Suc i) mod ?c)) [0..<cnt f - 1]"
    by (simp add: fifo_contents_def comp_def)
  moreover have "fifo_contents f' = map (\<lambda>i. buf f ! (((tail f + 1) mod ?c + i) mod ?c)) [0..<cnt f - 1]"
    by (simp add: f' fifo_contents_def capacity_def)
  ultimately show ?thesis using c x by (simp add: mod_simps)
qed

lemma fifo_contents_FIFO: "fifo_contents (FIFO n) = []"
  by (simp add: fifo_contents_def FIFO_def)

lemma fifo_in_full: "fifo_full f \<Longrightarrow> fifo_in x f = (False, f)"
  by (simp add: fifo_in_def)

lemma fifo_in_not_full: "\<not> fifo_full f \<Longrightarrow> fst (fifo_in x f)"
  by (simp add: fifo_in_def)

lemma fifo_calls_wf: "fifo_wf f \<Longrightarrow> fifo_wf (fifo_calls cs f)"
proof (induction cs f rule: fifo_calls.induct)
  case (3 cs f)
  then show ?case by (auto split: option.splits dest: fifo_wf_out)
qed (simp_all add: fifo_wf_in)

lemma fifo_calls_capacity: "capacity (fifo_calls cs f) = capacity f"
  by (induction cs f rule: fifo_calls.induct) 
     (auto simp: capacity_fifo_in capacity_fifo_out split: option.splits)

text \<open>
  Claim C4. After any sequence of \<open>in()\<close> and \<open>out()\<close> calls on a fresh ring
  buffer of size \<open>2^n\<close>, \<open>len()\<close> is at most the capacity, which is still \<open>2^n\<close>;
  \<open>in()\<close> on a full buffer returns false and leaves the buffer as it was; \<open>in()\<close>
  on a buffer that is not full returns true and appends the byte to the stored
  bytes, none of which is overwritten.
\<close>

theorem ring_buffer_bounded:
  "fifo_len (fifo_calls cs (FIFO n)) \<le> capacity (fifo_calls cs (FIFO n)) \<and>
   capacity (fifo_calls cs (FIFO n)) = 2 ^ n \<and>
   (fifo_full (fifo_calls cs (FIFO n)) \<longrightarrow>
      fifo_in x (fifo_calls cs (FIFO n)) = (False, fifo_calls cs (FIFO n))) \<and>
   (\<not> fifo_full (fifo_calls cs (FIFO n)) \<longrightarrow>
      fst (fifo_in x (fifo_calls cs (FIFO n))) \<and>
      fifo_contents (snd (fifo_in x (fifo_calls cs (FIFO n)))) =
        fifo_contents (fifo_calls cs (FIFO n)) @ [x])"
proof -
  have wf: "fifo_wf (fifo_calls cs (FIFO n))"
    by (rule fifo_calls_wf [OF fifo_wf_FIFO])
  then have "fifo_len (fifo_calls cs (FIFO n)) \<le> capacity (fifo_calls cs (FIFO n))"
    by (simp add: fifo_wf_def fifo_len_def)
  with wf show ?thesis
    by (simp add: fifo_calls_capacity capacity_FIFO fifo_in_full fifo_in_not_full fifo_contents_in)
qed

theorem ring_buffer_bounded_witness:
  "fifo_full (fifo_calls [In 1, In 2, Out, In 3] (FIFO 1)) \<and>
   fifo_contents (fifo_calls [In 1, In 2, Out, In 3] (FIFO 1)) = [2, 3] \<and>
   fifo_in 4 (fifo_calls [In 1, In 2, Out, In 3] (FIFO 1)) =
     (False, fifo_calls [In 1, In 2, Out, In 3] (FIFO 1)) \<and>
   \<not> fifo_full (fifo_calls [In 1] (FIFO 1)) \<and>
   fifo_contents (snd (fifo_in 5 (fifo_calls [In 1] (FIFO 1)))) = [1, 5]"
  using ring_buffer_bounded [of "[In 1, In 2, Out, In 3]" 1 4]
        ring_buffer_bounded [of "[In 1]" 1 5]
  by (simp add: FIFO_def fifo_in_def fifo_out_def fifo_full_def fifo_empty_def capacity_def
      fifo_contents_def)

section \<open>Set-up and the forced carrier\<close>

lemma modem0_timing:
  "fulBit modem0 = 32" "hlfBit modem0 = 16" "qrtBit modem0 = 8" "octBit modem0 = 4" "guard modem0 = 1000"
  by (simp_all add: modem0_def init_guard_def setModemType_timing_def Let_def drop_bit_eq_div)

lemma modem0_fields:
  "tx_active modem0 = OFF" "tx_carrier modem0 = OFF" "tx_state modem0 = WAIT"
  "tx_dtbit modem0 = MARK" "tx_data modem0 = 0" "tx_bits modem0 = 0" "tx_clk modem0 = 0"
  "rx_state modem0 = WAIT" "rx_data modem0 = 0" "rx_bits modem0 = 0" "rx_clk modem0 = 0"
  "rx_bitsum modem0 = 0" "rx_stream modem0 = 0"
  "carBits modem0 = 3" "dtbits modem0 = 8" "mode modem0 = DATA_MODE"
  "flowControl modem0 = False" "sregs modem0 2 = 43" "sregs modem0 12 = 50"
  "cfg_flwctr modem0 = 0" "cfg_dtecho modem0 = 0" "cfg_txcarr modem0 = 1"
  "txFIFO modem0 = FIFO 6" "rxFIFO modem0 = FIFO 6"
  "escCount modem0 = 0" "escFirst modem0 = 0" "escLast modem0 = 0" "lstChar modem0 = 0"
  "PORTB modem0 = 0" "serial_in modem0 = []" "serial_out modem0 = []"
  by (simp_all add: modem0_def init_guard_def setModemType_timing_def Let_def fifoSize_def)

lemma fifo_thresholds: "fifoLow = 16" "fifoMed = 32" "fifoHgh = 48"
  by (simp_all add: fifoLow_def fifoMed_def fifoHgh_def fifoSize_def)

text \<open>
  Claim C10. After \<open>setCarrier(v)\<close> the forced-carrier flag is \<open>v\<close> ANDed with the
  carrier-enable mask of the configuration; with a mask of 0 the flag is \<open>OFF\<close>
  whatever \<open>v\<close> is, so \<open>setCarrier(ON)\<close> does not force the carrier on.
\<close>

theorem setCarrier_masked:
  "tx_carrier (setCarrier v s) = v AND cfg_txcarr s \<and>
   (cfg_txcarr s = 0 \<longrightarrow>
      tx_carrier (setCarrier v s) = OFF \<and> tx_carrier (setCarrier ON s) \<noteq> ON)"
  by (simp add: setCarrier_def OFF_def ON_def)

theorem setCarrier_masked_witness:
  "cfg_txcarr (modem0\<lparr>cfg_txcarr := 0\<rparr>) = 0 \<and>
   tx_carrier (setCarrier ON (modem0\<lparr>cfg_txcarr := 0\<rparr>)) = OFF \<and>
   tx_carrier (setCarrier ON modem0) = ON"
  using setCarrier_masked [of ON "modem0\<lparr>cfg_txcarr := 0\<rparr>"]
        setCarrier_masked [of ON modem0]
  by (simp add: setCarrier_def modem0_fields ON_def OFF_def)

section \<open>The TX modulator: samples and bit periods\<close>

lemma txHandle_tick:
  "tx_on s \<Longrightarrow> \<not> fulBit s \<le> tx_clk s \<Longrightarrow>
   txHandle sv s = s\<lparr>OCR2 := wave_sample sv (tx_idx s),
                      tx_idx := tx_idx s + fsqTX_step s (tx_dtbit s),
                      tx_clk := tx_clk s + 1\<rparr>"
  by (simp add: txHandle_def tx_on_def Let_def)

lemma txHandle_boundary:
  "tx_on s \<Longrightarrow> fulBit s \<le> tx_clk s \<Longrightarrow>
   txHandle sv s = txNextBit (s\<lparr>OCR2 := wave_sample sv (tx_idx s),
                                 tx_idx := tx_idx s + fsqTX_step s (tx_dtbit s),
                                 tx_clk := 0\<rparr>)"
  by (simp add: txHandle_def tx_on_def Let_def)

lemma tx_sim_refl: "tx_sim s s"
  by (simp add: tx_sim_def)

lemma tx_sim_sym: "tx_sim s t \<Longrightarrow> tx_sim t s"
  by (simp add: tx_sim_def)

lemma tx_sim_trans: "tx_sim s t \<Longrightarrow> tx_sim t u \<Longrightarrow> tx_sim s u"
  by (simp add: tx_sim_def)

lemma tx_sim_upd: "tx_sim s (s\<lparr>OCR2 := a, tx_idx := i, tx_clk := c\<rparr>)"
  by (simp add: tx_sim_def tx_norm_def)

lemma tx_norm_fields:
  "tx_active (tx_norm s) = tx_active s" "tx_carrier (tx_norm s) = tx_carrier s"
  "tx_state (tx_norm s) = tx_state s" "tx_dtbit (tx_norm s) = tx_dtbit s"
  "fulBit (tx_norm s) = fulBit s"
  by (simp_all add: tx_norm_def)

lemma tx_sim_fields:
  assumes "tx_sim s t"
  shows "tx_active t = tx_active s" "tx_carrier t = tx_carrier s" "tx_state t = tx_state s"
    "tx_dtbit t = tx_dtbit s" "fulBit t = fulBit s"
proof -
  have e: "tx_norm s = tx_norm t" using assms by (simp add: tx_sim_def)
  show "tx_active t = tx_active s" using arg_cong [OF e, of tx_active] by (simp add: tx_norm_fields)
  show "tx_carrier t = tx_carrier s" using arg_cong [OF e, of tx_carrier] by (simp add: tx_norm_fields)
  show "tx_state t = tx_state s" using arg_cong [OF e, of tx_state] by (simp add: tx_norm_fields)
  show "tx_dtbit t = tx_dtbit s" using arg_cong [OF e, of tx_dtbit] by (simp add: tx_norm_fields)
  show "fulBit t = fulBit s" using arg_cong [OF e, of fulBit] by (simp add: tx_norm_fields)
qed

lemma tx_sim_on: "tx_sim s t \<Longrightarrow> tx_on t = tx_on s"
  by (simp add: tx_on_def tx_sim_fields)

lemma txNextBit_norm: "tx_norm (txNextBit (tx_norm s)) = tx_norm (txNextBit s)"
  by (cases "tx_state s")
     (auto simp: txNextBit_def tx_norm_def Let_def split: option.splits)

lemma tx_sim_txNextBit:
  assumes "tx_sim s t"
  shows "tx_sim (txNextBit s) (txNextBit t)"
proof -
  have "tx_norm (txNextBit s) = tx_norm (txNextBit (tx_norm s))"
    by (simp only: txNextBit_norm)
  also have "\<dots> = tx_norm (txNextBit (tx_norm t))"
    using assms by (simp only: tx_sim_def)
  also have "\<dots> = tx_norm (txNextBit t)"
    by (simp only: txNextBit_norm)
  finally show ?thesis by (simp only: tx_sim_def)
qed

lemma txNextBit_fulBit: "fulBit (txNextBit s) = fulBit s"
  by (cases "tx_state s") (auto simp: txNextBit_def Let_def split: option.splits)

lemma txNextBit_clk0: "tx_clk s = 0 \<Longrightarrow> tx_clk (txNextBit s) = 0"
  by (cases "tx_state s") (auto simp: txNextBit_def Let_def split: option.splits)


lemma unat_u8_Suc:
  assumes "unat (c::u8) < unat (b::u8)"
  shows "unat (c + 1) = Suc (unat c)"
proof -
  have "unat b < 2 ^ LENGTH(8)" by (rule unsigned_less)
  then have "unat c + unat (1::u8) < 2 ^ LENGTH(8)" using assms by simp
  then have "unat (c + 1) = unat c + unat (1::u8)" by (simp only: unat_add_lem)
  then show ?thesis by simp
qed

lemma txRun_ticks:
  "tx_on t \<Longrightarrow> unat (tx_clk t) + n \<le> unat (fulBit t) \<Longrightarrow>
   tx_sim t (txRun sv n t) \<and> tx_clk (txRun sv n t) = tx_clk t + of_nat n \<and>
   txSymbols sv (n + m) t = txSymbols sv m (txRun sv n t)"
proof (induction n arbitrary: t)
  case 0
  then show ?case by (simp add: tx_sim_refl)
next
  case (Suc n)
  let ?t = "t\<lparr>OCR2 := wave_sample sv (tx_idx t),
               tx_idx := tx_idx t + fsqTX_step t (tx_dtbit t),
               tx_clk := tx_clk t + 1\<rparr>"
  have lt: "unat (tx_clk t) < unat (fulBit t)" using Suc.prems by simp
  then have nb: "\<not> fulBit t \<le> tx_clk t" by (simp add: word_le_nat_alt)
  have h: "txHandle sv t = ?t" using Suc.prems(1) nb by (rule txHandle_tick)
  have sim: "tx_sim t ?t" by (rule tx_sim_upd)
  have on: "tx_on ?t" using Suc.prems(1) by (simp add: tx_on_def)
  have clk: "unat (tx_clk ?t) = Suc (unat (tx_clk t))" using lt by (simp add: unat_u8_Suc)
  have "unat (tx_clk ?t) + n \<le> unat (fulBit ?t)" using Suc.prems(2) clk by simp
  from Suc.IH [OF on this]
  have ih: "tx_sim ?t (txRun sv n ?t)" "tx_clk (txRun sv n ?t) = tx_clk ?t + of_nat n"
    "txSymbols sv (n + m) ?t = txSymbols sv m (txRun sv n ?t)" by auto
  have "tx_sim t (txRun sv (Suc n) t)"
    using tx_sim_trans [OF sim ih(1)] h by simp
  moreover have "tx_clk (txRun sv (Suc n) t) = tx_clk t + of_nat (Suc n)"
    using ih(2) h by simp
  moreover have "txSymbols sv (Suc n + m) t = txSymbols sv m (txRun sv (Suc n) t)"
    using ih(3) h nb by (simp add: tx_boundary_def)
  ultimately show ?case by blast
qed

lemma txSymbols_period:
  assumes sim: "tx_sim s t" and on: "tx_on s" and clk: "tx_clk t = 0"
  shows "\<exists>t'. tx_sim (txNextBit s) t' \<and> tx_clk t' = 0 \<and>
           txSymbols sv (unat (fulBit s) + 1 + m) t =
             (tx_state (txNextBit s), tx_dtbit (txNextBit s)) # txSymbols sv m t'"
proof -
  let ?n = "unat (fulBit s)"
  let ?u = "txRun sv ?n t"
  have fb: "fulBit t = fulBit s" using sim by (rule tx_sim_fields)
  have ont: "tx_on t" using sim on by (simp add: tx_sim_on)
  have "unat (tx_clk t) + ?n \<le> unat (fulBit t)" using clk fb by simp
  from txRun_ticks [OF ont this, of sv "Suc m"]
  have u: "tx_sim t ?u" "tx_clk ?u = fulBit s" "txSymbols sv (?n + Suc m) t = txSymbols sv (Suc m) ?u"
    using clk by auto
  have su: "tx_sim s ?u" using sim u(1) by (rule tx_sim_trans)
  have onu: "tx_on ?u" using su on by (simp add: tx_sim_on)
  have fbu: "fulBit ?u = fulBit s" using su by (rule tx_sim_fields)
  let ?v = "?u\<lparr>OCR2 := wave_sample sv (tx_idx ?u),
               tx_idx := tx_idx ?u + fsqTX_step ?u (tx_dtbit ?u),
               tx_clk := 0\<rparr>"
  have h: "txHandle sv ?u = txNextBit ?v"
    using onu by (rule txHandle_boundary) (simp add: fbu u(2))
  have sv: "tx_sim s ?v" using su tx_sim_upd by (rule tx_sim_trans)
  have sim': "tx_sim (txNextBit s) (txNextBit ?v)" using sv by (rule tx_sim_txNextBit)
  have c0: "tx_clk (txNextBit ?v) = 0" by (rule txNextBit_clk0) simp
  have bd: "tx_boundary ?u" using onu by (simp add: tx_boundary_def fbu u(2))
  have "txSymbols sv (Suc m) ?u =
          (tx_state (txNextBit s), tx_dtbit (txNextBit s)) # txSymbols sv m (txNextBit ?v)"
    using bd h tx_sim_fields(3,4) [OF sim'] by simp
  then have "txSymbols sv (?n + 1 + m) t =
          (tx_state (txNextBit s), tx_dtbit (txNextBit s)) # txSymbols sv m (txNextBit ?v)"
    using u(3) by simp
  with sim' c0 show ?thesis by blast
qed

lemma txSymbols_frames:
  "tx_sim s t \<Longrightarrow> tx_clk t = 0 \<Longrightarrow> tx_live k s \<Longrightarrow>
   txSymbols sv (k * (unat (fulBit s) + 1)) t = txFrames k s"
proof (induction k arbitrary: s t)
  case 0
  then show ?case by simp
next
  case (Suc k)
  have on: "tx_on s" and live: "tx_live k (txNextBit s)" using Suc.prems(3) by auto
  from txSymbols_period [OF Suc.prems(1) on Suc.prems(2), of sv "k * (unat (fulBit s) + 1)"]
  obtain t' where t': "tx_sim (txNextBit s) t'" "tx_clk t' = 0"
    "txSymbols sv (unat (fulBit s) + 1 + k * (unat (fulBit s) + 1)) t =
       (tx_state (txNextBit s), tx_dtbit (txNextBit s)) # txSymbols sv (k * (unat (fulBit s) + 1)) t'"
    by blast
  have "txSymbols sv (k * (unat (fulBit (txNextBit s)) + 1)) t' = txFrames k (txNextBit s)"
    using t'(1,2) live by (rule Suc.IH)
  then have ih: "txSymbols sv (k * (unat (fulBit s) + 1)) t' = txFrames k (txNextBit s)"
    by (simp only: txNextBit_fulBit)
  have eq: "Suc k * (unat (fulBit s) + 1) = unat (fulBit s) + 1 + k * (unat (fulBit s) + 1)"
    by simp
  have "txSymbols sv (Suc k * (unat (fulBit s) + 1)) t =
          (tx_state (txNextBit s), tx_dtbit (txNextBit s)) # txFrames k (txNextBit s)"
    by (simp only: eq t'(3) ih)
  then show ?case by (simp only: txFrames.simps)
qed

lemma txFrames_add: "txFrames (k + m) s = txFrames k s @ txFrames m (txIter k s)"
  by (induction k arbitrary: s) simp_all

lemma tx_live_add: "tx_live (k + m) s = (tx_live k s \<and> tx_live m (txIter k s))"
  by (induction k arbitrary: s) simp_all

lemma txIter_add: "txIter (k + m) s = txIter m (txIter k s)"
  by (induction k arbitrary: s) simp_all


lemma fifo_out_contents:
  assumes "fifo_wf f" "fifo_contents f = x # xs"
  shows "\<exists>f'. fifo_out f = Some (x, f') \<and> fifo_contents f' = xs \<and> fifo_wf f'"
proof -
  have "fifo_len f = length (x # xs)"
    using length_fifo_contents [of f] assms(2) by simp
  then have "\<not> fifo_empty f"
    by (simp add: fifo_empty_def fifo_len_def)
  then obtain y f' where o: "fifo_out f = Some (y, f')"
    by (auto simp: fifo_out_def)
  from fifo_contents_out [OF assms(1) o] assms(2) fifo_wf_out [OF assms(1) o] o
  show ?thesis by simp
qed

lemma preamble_hold:
  "tx_state s = PREAMBLE \<Longrightarrow> tx_carrier s \<noteq> ON \<Longrightarrow> unat (tx_bits s) + k < unat (carBits s) \<Longrightarrow>
   txIter k s = s\<lparr>tx_bits := tx_bits s + of_nat k\<rparr> \<and>
   txFrames k s = replicate k (PREAMBLE, tx_dtbit s) \<and>
   (tx_on s \<longrightarrow> tx_live k s)"
proof (induction k arbitrary: s)
  case 0
  then show ?case by simp
next
  case (Suc k)
  have lt: "unat (tx_bits s) < unat (carBits s)" using Suc.prems(3) by simp
  have b1: "unat (tx_bits s + 1) = Suc (unat (tx_bits s))" using lt by (rule unat_u8_Suc)
  have "unat (tx_bits s + 1) < unat (carBits s)" using Suc.prems(3) b1 by simp
  then have stay: "\<not> carBits s \<le> tx_bits s + 1" by (simp add: word_le_nat_alt)
  have nb: "txNextBit s = s\<lparr>tx_bits := tx_bits s + 1\<rparr>"
    using Suc.prems(1,2) stay by (simp add: txNextBit_def Let_def)
  let ?s = "s\<lparr>tx_bits := tx_bits s + 1\<rparr>"
  have "tx_state ?s = PREAMBLE" "tx_carrier ?s \<noteq> ON" "unat (tx_bits ?s) + k < unat (carBits ?s)"
    using Suc.prems b1 by simp_all
  from Suc.IH [OF this]
  have ih: "txIter k ?s = ?s\<lparr>tx_bits := tx_bits ?s + of_nat k\<rparr>"
    "txFrames k ?s = replicate k (PREAMBLE, tx_dtbit ?s)"
    "tx_on ?s \<longrightarrow> tx_live k ?s" by auto
  have on: "tx_on ?s = tx_on s" by (simp add: tx_on_def)
  show ?case
    using ih on Suc.prems(1) by (simp add: nb add.assoc)
qed

section \<open>The TX modulator: the frame of a byte\<close>

lemma txNextBit_START:
  "tx_state s = START_BIT \<Longrightarrow>
   txNextBit s = s\<lparr>tx_state := DATA_BIT, tx_dtbit := tx_data s AND 1,
                    tx_data := drop_bit 1 (tx_data s), tx_bits := 0\<rparr>"
  by (simp add: txNextBit_def)

lemma txNextBit_DATA_more:
  "tx_state s = DATA_BIT \<Longrightarrow> tx_bits s + 1 < dtbits s \<Longrightarrow>
   txNextBit s = s\<lparr>tx_bits := tx_bits s + 1, tx_dtbit := tx_data s AND 1,
                    tx_data := drop_bit 1 (tx_data s)\<rparr>"
  by (simp add: txNextBit_def Let_def)

lemma txNextBit_DATA_last:
  "tx_state s = DATA_BIT \<Longrightarrow> \<not> tx_bits s + 1 < dtbits s \<Longrightarrow>
   txNextBit s = s\<lparr>tx_bits := tx_bits s + 1, tx_state := STOP_BIT, tx_dtbit := MARK\<rparr>"
  by (simp add: txNextBit_def Let_def)

lemma txFrames_Suc_on:
  "tx_on s \<Longrightarrow> txNextBit s = s' \<Longrightarrow>
   txFrames (Suc n) s = (tx_state s', tx_dtbit s') # txFrames n s' \<and>
   tx_live (Suc n) s = tx_live n s'"
  by auto

lemma x1: "drop_bit 1 (0x41::u8) = 0x20" "(0x41::u8) AND 1 = 1" "drop_bit 1 (0x20::u8) = 0x10" 
  "drop_bit 1 (1::u8) = 0"  "drop_bit 1 (2::u8) = 1" "(2::u8) AND 1 = 0"
  by simp_all



lemma upt_0_Suc_map: "[0..<Suc k] = 0 # map Suc [0..<k]"
proof -
  have "[0..<Suc k] = 0 # [Suc 0..<Suc k]" by (rule upt_conv_Cons) simp
  then show ?thesis by (simp only: map_Suc_upt)
qed

lemma data_bits:
  "tx_state s = DATA_BIT \<Longrightarrow> tx_on s \<Longrightarrow> unat (tx_bits s) + k < unat (dtbits s) \<Longrightarrow>
   txFrames k s = map (\<lambda>j. (DATA_BIT, drop_bit j (tx_data s) AND 1)) [0..<k] \<and>
   tx_live k s \<and>
   tx_state (txIter k s) = DATA_BIT \<and> tx_on (txIter k s) \<and>
   tx_bits (txIter k s) = tx_bits s + of_nat k \<and> dtbits (txIter k s) = dtbits s"
proof (induction k arbitrary: s)
  case 0
  then show ?case by simp
next
  case (Suc k)
  have lt: "unat (tx_bits s) < unat (dtbits s)" using Suc.prems(3) by simp
  have b1: "unat (tx_bits s + 1) = Suc (unat (tx_bits s))" using lt by (rule unat_u8_Suc)
  have "unat (tx_bits s + 1) < unat (dtbits s)" using Suc.prems(3) b1 by simp
  then have more: "tx_bits s + 1 < dtbits s" by (simp add: word_less_nat_alt)
  let ?s = "s\<lparr>tx_bits := tx_bits s + 1, tx_dtbit := tx_data s AND 1,
               tx_data := drop_bit 1 (tx_data s)\<rparr>"
  have nb: "txNextBit s = ?s" using Suc.prems(1) more by (rule txNextBit_DATA_more)
  have "tx_state ?s = DATA_BIT" "tx_on ?s" "unat (tx_bits ?s) + k < unat (dtbits ?s)"
    using Suc.prems b1 by (simp_all add: tx_on_def)
  from Suc.IH [OF this]
  have ih: "txFrames k ?s = map (\<lambda>j. (DATA_BIT, drop_bit j (tx_data ?s) AND 1)) [0..<k]"
    "tx_live k ?s" "tx_state (txIter k ?s) = DATA_BIT" "tx_on (txIter k ?s)"
    "tx_bits (txIter k ?s) = tx_bits ?s + of_nat k" "dtbits (txIter k ?s) = dtbits ?s"
    by auto
  have fr: "txFrames (Suc k) s = (DATA_BIT, tx_data s AND 1) # txFrames k ?s"
    by (simp add: nb Suc.prems(1))
  have "txFrames k ?s = map (\<lambda>j. (DATA_BIT, drop_bit (Suc j) (tx_data s) AND 1)) [0..<k]"
    using ih(1) by (simp add: drop_bit_drop_bit)
  then have "txFrames (Suc k) s = map (\<lambda>j. (DATA_BIT, drop_bit j (tx_data s) AND 1)) [0..<Suc k]"
    using fr by (simp only: upt_0_Suc_map list.map map_map comp_def drop_bit_0 id_apply) 
  moreover have "tx_live (Suc k) s" using Suc.prems(2) ih(2) by (simp add: nb)
  moreover have "tx_state (txIter (Suc k) s) = DATA_BIT" "tx_on (txIter (Suc k) s)"
    "dtbits (txIter (Suc k) s) = dtbits s"
    using ih(3,4,6) by (simp_all add: nb)
  moreover have "tx_bits (txIter (Suc k) s) = tx_bits s + of_nat (Suc k)"
    using ih(5) by (simp add: nb add.assoc)
  ultimately show ?case by blast
qed


lemma upt_0_8: "[0..<8] = [0, 1, 2, 3, 4, 5, 6, 7::nat]"
  by code_simp

lemma frame_of_0x41: "frame_of 8 0x41 = frame_0x41"
  by (simp add: frame_of_def frame_0x41_def upt_0_8 SPACE_def MARK_def)

lemma of_nat_pred_u8: "0 < unat (w::u8) \<Longrightarrow> of_nat (unat w - 1) + 1 = w"
  by (metis Suc_pred' add.commute of_nat_Suc of_nat_unat plus_1_eq_Suc ucast_id)

lemma txFrames_byte:
  assumes st: "tx_state s = WAIT" and on: "tx_on s"
    and wf: "fifo_wf (txFIFO s)" and fc: "fifo_contents (txFIFO s) = x # xs"
    and n: "0 < dtbits s"
  shows "txFrames (preamble_periods s + unat (dtbits s) + 2) s =
           replicate (preamble_periods s) (PREAMBLE, MARK) @ frame_of (unat (dtbits s)) x \<and>
         tx_live (preamble_periods s + unat (dtbits s) + 2) s"
proof -
  let ?p = "preamble_periods s"
  let ?n = "unat (dtbits s)"
  have n1: "0 < ?n" using n by (simp add: word_less_nat_alt)
  have p1: "0 < ?p" by (simp add: preamble_periods_def max_def)
  obtain f' where out: "fifo_out (txFIFO s) = Some (x, f')"
    using fifo_out_contents [OF wf fc] by blast
  define s1 where "s1 = s\<lparr>tx_dtbit := MARK, tx_data := x, txFIFO := f',
                           tx_state := PREAMBLE, tx_bits := 0\<rparr>"
  have nb1: "txNextBit s = s1"
    by (simp add: txNextBit_def Let_def st out s1_def)
  have on1: "tx_on s1" using on by (simp add: s1_def tx_on_def)
  define s2 where "s2 = s1\<lparr>tx_bits := of_nat (?p - 1)\<rparr>"
  have hold: "txIter (?p - 1) s1 = s2 \<and> txFrames (?p - 1) s1 = replicate (?p - 1) (PREAMBLE, MARK)
              \<and> tx_live (?p - 1) s1"
  proof (cases "?p - 1 = 0")
    case True
    then show ?thesis by (simp add: s2_def s1_def)
  next
    case False
    then have c: "tx_carrier s \<noteq> ON" "?p = unat (carBits s)"
      by (auto simp: preamble_periods_def split: if_splits)
    have "tx_state s1 = PREAMBLE" "tx_carrier s1 \<noteq> ON"
      "unat (tx_bits s1) + (?p - 1) < unat (carBits s1)"
      using c p1 by (simp_all add: s1_def)
    from preamble_hold [OF this] on1 show ?thesis by (simp add: s2_def s1_def)
  qed
  define s3 where "s3 = s2\<lparr>tx_bits := of_nat (?p - 1) + 1, tx_state := START_BIT, tx_dtbit := SPACE\<rparr>"
  have leave: "carBits s \<le> of_nat (?p - 1) + 1 \<or> tx_carrier s = ON"
  proof (cases "tx_carrier s = ON \<or> unat (carBits s) = 0")
    case True
    then show ?thesis by (auto simp: unat_eq_0)
  next
    case False
    then have "?p = unat (carBits s)" "0 < unat (carBits s)" by (simp_all add: preamble_periods_def)
    then show ?thesis by (simp add: of_nat_pred_u8)
  qed
  have nb3: "txNextBit s2 = s3"
    using leave by (auto simp: txNextBit_def Let_def s3_def s2_def s1_def)
  define s4 where "s4 = s3\<lparr>tx_state := DATA_BIT, tx_dtbit := x AND 1,
                            tx_data := drop_bit 1 x, tx_bits := 0\<rparr>"
  have nb4: "txNextBit s3 = s4"
    by (simp add: txNextBit_START s4_def s3_def s2_def s1_def)
  have "tx_state s4 = DATA_BIT" "tx_on s4" "unat (tx_bits s4) + (?n - 1) < unat (dtbits s4)"
    using on n1 by (simp_all add: s4_def s3_def s2_def s1_def tx_on_def)
  from data_bits [OF this]
  have d: "txFrames (?n - 1) s4 = map (\<lambda>j. (DATA_BIT, drop_bit j (tx_data s4) AND 1)) [0..<?n - 1]"
    "tx_live (?n - 1) s4" "tx_state (txIter (?n - 1) s4) = DATA_BIT" "tx_on (txIter (?n - 1) s4)"
    "tx_bits (txIter (?n - 1) s4) = tx_bits s4 + of_nat (?n - 1)"
    "dtbits (txIter (?n - 1) s4) = dtbits s4"
    by auto
  define s5 where "s5 = txIter (?n - 1) s4"
  have "tx_bits s5 + 1 = dtbits s5"
    using d(5,6) n1 by (simp add: s5_def s4_def s3_def s2_def s1_def of_nat_pred_u8)
  then have last: "\<not> tx_bits s5 + 1 < dtbits s5" by simp
  have nb6: "tx_state (txNextBit s5) = STOP_BIT" "tx_dtbit (txNextBit s5) = MARK"
    using txNextBit_DATA_last [OF d(3) [folded s5_def] last] by simp_all
  have f5: "txFrames (Suc 0) s5 = [(STOP_BIT, MARK)]" "tx_live (Suc 0) s5"
    using nb6 d(4) by (simp_all add: s5_def)
  have f4: "txFrames ((?n - 1) + Suc 0) s4 =
              map (\<lambda>j. (DATA_BIT, drop_bit (Suc j) x AND 1)) [0..<?n - 1] @ [(STOP_BIT, MARK)]"
    "tx_live ((?n - 1) + Suc 0) s4"
    using d(1,2) f5 
    by (simp_all only: txFrames_add tx_live_add s5_def [symmetric])
       (simp_all add: s4_def drop_bit_drop_bit)
  have nn: "Suc (?n - 1) = ?n" using n1 by simp
  have "(DATA_BIT, x AND 1) # map (\<lambda>j. (DATA_BIT, drop_bit (Suc j) x AND 1)) [0..<?n - 1] =
        map (\<lambda>j. (DATA_BIT, drop_bit j x AND 1)) [0..<Suc (?n - 1)]"
    by (simp only: upt_0_Suc_map list.map map_map comp_def drop_bit_0 id_apply)
  then have dm: "(DATA_BIT, x AND 1) # map (\<lambda>j. (DATA_BIT, drop_bit (Suc j) x AND 1)) [0..<?n - 1] =
        map (\<lambda>j. (DATA_BIT, drop_bit j x AND 1)) [0..<?n]"
    by (simp only: nn)
  have f3: "txFrames (Suc ((?n - 1) + Suc 0)) s3 =
              map (\<lambda>j. (DATA_BIT, drop_bit j x AND 1)) [0..<?n] @ [(STOP_BIT, MARK)]"
    "tx_live (Suc ((?n - 1) + Suc 0)) s3"
  proof -
    have "tx_on s3" using on by (simp add: s3_def s2_def s1_def tx_on_def)
    then show "tx_live (Suc ((?n - 1) + Suc 0)) s3" using f4(2) by (simp add: nb4)
    have "txFrames (Suc ((?n - 1) + Suc 0)) s3 =
            (DATA_BIT, x AND 1) # txFrames ((?n - 1) + Suc 0) s4"
      by (simp add: nb4 s4_def)
    then show "txFrames (Suc ((?n - 1) + Suc 0)) s3 =
              map (\<lambda>j. (DATA_BIT, drop_bit j x AND 1)) [0..<?n] @ [(STOP_BIT, MARK)]"
      using dm by (simp only: f4(1) append_Cons [symmetric])
  qed
  have f2: "txFrames (Suc (Suc ((?n - 1) + Suc 0))) s2 = frame_of ?n x"
    "tx_live (Suc (Suc ((?n - 1) + Suc 0))) s2"
  proof -
    have "tx_on s2" using on by (simp add: s2_def s1_def tx_on_def)
    then show "tx_live (Suc (Suc ((?n - 1) + Suc 0))) s2"
      using f3(2) by (simp add: nb3)
    have "txFrames (Suc (Suc ((?n - 1) + Suc 0))) s2 =
            (START_BIT, SPACE) # txFrames (Suc ((?n - 1) + Suc 0)) s3"
      by (simp add: nb3 s3_def)
    then show "txFrames (Suc (Suc ((?n - 1) + Suc 0))) s2 = frame_of ?n x"
      by (simp only: f3(1) frame_of_def)
  qed
  have f1: "txFrames ((?p - 1) + Suc (Suc ((?n - 1) + Suc 0))) s1 =
              replicate (?p - 1) (PREAMBLE, MARK) @ frame_of ?n x"
    "tx_live ((?p - 1) + Suc (Suc ((?n - 1) + Suc 0))) s1"
    using hold f2 by (simp_all only: txFrames_add tx_live_add) 
  have f0: "txFrames (Suc ((?p - 1) + Suc (Suc ((?n - 1) + Suc 0)))) s =
              (PREAMBLE, MARK) # replicate (?p - 1) (PREAMBLE, MARK) @ frame_of ?n x"
    "tx_live (Suc ((?p - 1) + Suc (Suc ((?n - 1) + Suc 0)))) s"
  proof -
    show "tx_live (Suc ((?p - 1) + Suc (Suc ((?n - 1) + Suc 0)))) s"
      using on f1(2) by (simp add: nb1)
    have "txFrames (Suc ((?p - 1) + Suc (Suc ((?n - 1) + Suc 0)))) s =
            (PREAMBLE, MARK) # txFrames ((?p - 1) + Suc (Suc ((?n - 1) + Suc 0))) s1"
      by (simp add: nb1 s1_def)
    then show "txFrames (Suc ((?p - 1) + Suc (Suc ((?n - 1) + Suc 0)))) s =
              (PREAMBLE, MARK) # replicate (?p - 1) (PREAMBLE, MARK) @ frame_of ?n x"
      by (simp only: f1(1) append_Cons)
  qed
  have cnt: "Suc ((?p - 1) + Suc (Suc ((?n - 1) + Suc 0))) = ?p + ?n + 2"
    using p1 n1 by simp
  have rp: "(PREAMBLE, MARK) # replicate (?p - 1) (PREAMBLE, MARK) = replicate ?p (PREAMBLE, MARK)"
    using p1 by (cases ?p) simp_all
  show ?thesis
    using f0 by (simp only: cnt rp append_Cons [symmetric]) 
qed

section \<open>The TX modulator: transmitting 0x41\<close>

lemma modem0_timing_fields:
  "fulBit modem0 = 32" "hlfBit modem0 = 16" "qrtBit modem0 = 8" "octBit modem0 = 4"
  "guard modem0 = 1000"
  by (simp_all add: modem0_timing)

text \<open>
  Claim C5. With eight data bits, a modulator that is switched on and waits at the
  start of a bit period, with the single byte 0x41 in the TX queue, chooses at the
  successive framing boundaries: MARK in state PREAMBLE for each bit period of the
  preamble, then SPACE as the start bit, then the data bits 1,0,0,0,0,0,1,0 (bit 0
  of the byte first), then MARK as the stop bit. A bit period is \<open>fulBit + 1\<close> calls
  of \<open>txHandle\<close>.
\<close>

theorem tx_frame_0x41:
  assumes "tx_state s = WAIT" and "tx_on s" and "tx_clk s = 0"
    and "fifo_wf (txFIFO s)" and "fifo_contents (txFIFO s) = [0x41]"
    and "dtbits s = 8"
  shows "txSymbols sv ((preamble_periods s + 10) * (unat (fulBit s) + 1)) s =
           replicate (preamble_periods s) (PREAMBLE, MARK) @ frame_0x41 \<and>
         map snd (txSymbols sv ((preamble_periods s + 10) * (unat (fulBit s) + 1)) s) =
           replicate (preamble_periods s) MARK @ [SPACE, 1, 0, 0, 0, 0, 0, 1, 0, MARK]"
proof -
  have n: "0 < dtbits s" using assms(6) by simp
  have u: "unat (dtbits s) = 8" using assms(6) by simp
  have e: "preamble_periods s + 8 + 2 = preamble_periods s + 10" by simp
  note b = txFrames_byte [OF assms(1,2,4,5) n]
  have fr: "txFrames (preamble_periods s + 10) s =
              replicate (preamble_periods s) (PREAMBLE, MARK) @ frame_0x41"
    using conjunct1 [OF b] by (simp only: u e frame_of_0x41)
  have live: "tx_live (preamble_periods s + 10) s"
    using conjunct2 [OF b] by (simp only: u e)
  have "txSymbols sv ((preamble_periods s + 10) * (unat (fulBit s) + 1)) s =
          txFrames (preamble_periods s + 10) s"
    using tx_sim_refl assms(3) live by (rule txSymbols_frames)
  then have 1: "txSymbols sv ((preamble_periods s + 10) * (unat (fulBit s) + 1)) s =
           replicate (preamble_periods s) (PREAMBLE, MARK) @ frame_0x41"
    by (simp only: fr)
  show ?thesis
    by (simp only: 1) (simp add: frame_0x41_def)
qed

lemma tx0_fields:
  "tx_state tx0 = WAIT" "tx_on tx0" "tx_clk tx0 = 0" "dtbits tx0 = 8"
  "txFIFO tx0 = snd (fifo_in 0x41 (FIFO 6))" "preamble_periods tx0 = 3" "fulBit tx0 = 32"
  by (simp_all add: tx0_def modem0_fields modem0_timing_fields tx_on_def preamble_periods_def
      ON_def OFF_def)

theorem tx_frame_0x41_witness:
  "txSymbols sv0 429 tx0 =
     [(PREAMBLE, MARK), (PREAMBLE, MARK), (PREAMBLE, MARK), (START_BIT, SPACE),
      (DATA_BIT, 1), (DATA_BIT, 0), (DATA_BIT, 0), (DATA_BIT, 0),
      (DATA_BIT, 0), (DATA_BIT, 0), (DATA_BIT, 1), (DATA_BIT, 0), (STOP_BIT, MARK)]"
proof -
  have wf: "fifo_wf (txFIFO tx0)"
    by (simp add: tx0_fields fifo_wf_in fifo_wf_FIFO)
  have "\<not> fifo_full (FIFO 6)"
    by (simp add: fifo_full_def FIFO_def capacity_def)
  then have fc: "fifo_contents (txFIFO tx0) = [0x41]"
    by (simp add: tx0_fields fifo_contents_in fifo_wf_FIFO fifo_contents_FIFO)
  have n: "(preamble_periods tx0 + 10) * (unat (fulBit tx0) + 1) = 429"
    by (simp add: tx0_fields)
  have r: "replicate (preamble_periods tx0) (PREAMBLE, MARK) @ frame_0x41 =
     [(PREAMBLE, MARK), (PREAMBLE, MARK), (PREAMBLE, MARK), (START_BIT, SPACE),
      (DATA_BIT, 1), (DATA_BIT, 0), (DATA_BIT, 0), (DATA_BIT, 0),
      (DATA_BIT, 0), (DATA_BIT, 0), (DATA_BIT, 1), (DATA_BIT, 0), (STOP_BIT, MARK)]"
    by (simp add: tx0_fields frame_0x41_def numeral_3_eq_3)
  from conjunct1 [OF tx_frame_0x41 [OF tx0_fields(1,2,3) wf fc tx0_fields(4), of sv0]]
  show ?thesis
    by (simp only: n r)
qed

section \<open>The TX modulator: the preamble\<close>

lemma txNextBit_PREAMBLE:
  "tx_state s = PREAMBLE \<Longrightarrow>
   txNextBit s =
     (if carBits s \<le> tx_bits s + 1 \<or> tx_carrier s = ON
      then s\<lparr>tx_bits := tx_bits s + 1, tx_state := START_BIT, tx_dtbit := SPACE\<rparr>
      else s\<lparr>tx_bits := tx_bits s + 1\<rparr>)"
  by (simp add: txNextBit_def Let_def)

lemma preamble_run:
  assumes st: "tx_state s = PREAMBLE" and on: "tx_on s" and c: "tx_carrier s \<noteq> ON"
    and b: "tx_bits s = 0" and n: "0 < carBits s"
  shows "txFrames (unat (carBits s)) s =
           replicate (unat (carBits s) - 1) (PREAMBLE, tx_dtbit s) @ [(START_BIT, SPACE)] \<and>
         tx_live (unat (carBits s)) s"
proof -
  let ?c = "unat (carBits s)"
  have c1: "0 < ?c" using n by (simp add: word_less_nat_alt)
  have "unat (tx_bits s) + (?c - 1) < ?c" using b c1 by simp
  from preamble_hold [OF st c this] on
  have h: "txIter (?c - 1) s = s\<lparr>tx_bits := of_nat (?c - 1)\<rparr>"
    "txFrames (?c - 1) s = replicate (?c - 1) (PREAMBLE, tx_dtbit s)" "tx_live (?c - 1) s"
    by (simp_all add: b)
  define s2 where "s2 = s\<lparr>tx_bits := of_nat (?c - 1)\<rparr>"
  have s2: "tx_state s2 = PREAMBLE" "tx_on s2" "tx_bits s2 + 1 = carBits s2"
    using st on c1 by (simp_all add: s2_def tx_on_def of_nat_pred_u8)
  have nb: "txNextBit s2 = s2\<lparr>tx_bits := tx_bits s2 + 1, tx_state := START_BIT, tx_dtbit := SPACE\<rparr>"
    using s2(1,3) by (simp add: txNextBit_PREAMBLE)
  have l: "txFrames (Suc 0) s2 = [(START_BIT, SPACE)]" "tx_live (Suc 0) s2"
    using s2(2) by (simp_all add: nb)
  have e: "?c = (?c - 1) + Suc 0" using c1 by simp
  have "txFrames ((?c - 1) + Suc 0) s =
          replicate (?c - 1) (PREAMBLE, tx_dtbit s) @ [(START_BIT, SPACE)]"
    by (simp only: txFrames_add h s2_def [symmetric] l)
  moreover have "tx_live ((?c - 1) + Suc 0) s"
    by (simp only: tx_live_add h s2_def [symmetric] l)
  ultimately show ?thesis using e by simp
qed

text \<open>
  Claim C9, as the code has it. While the modulator transmits in state PREAMBLE, a
  call of \<open>txHandle\<close> that does not end a bit period leaves the state, the symbol
  and the bit counter as they are. A call that ends a bit period counts the
  period; it emits SPACE and goes to START_BIT when the count has reached the
  configured number \<open>carBits\<close> or the forced-carrier flag is ON at that moment, and
  otherwise stays in PREAMBLE with the symbol unchanged. So with the forced carrier
  not on, a preamble entered with MARK (count 0, start of a bit period) holds the
  symbol over \<open>carBits\<close> bit periods: \<open>carBits - 1\<close> boundaries keep it and the
  boundary number \<open>carBits\<close> starts the start bit.
\<close>

theorem preamble_until_count_or_carrier_on:
  assumes "tx_state s = PREAMBLE" and "tx_on s"
  shows "(\<not> tx_boundary s \<longrightarrow>
            tx_state (txHandle sv s) = PREAMBLE \<and> tx_dtbit (txHandle sv s) = tx_dtbit s \<and>
            tx_bits (txHandle sv s) = tx_bits s) \<and>
         (tx_boundary s \<longrightarrow>
            tx_bits (txHandle sv s) = tx_bits s + 1 \<and>
            (if carBits s \<le> tx_bits s + 1 \<or> tx_carrier s = ON
             then tx_state (txHandle sv s) = START_BIT \<and> tx_dtbit (txHandle sv s) = SPACE
             else tx_state (txHandle sv s) = PREAMBLE \<and> tx_dtbit (txHandle sv s) = tx_dtbit s)) \<and>
         (tx_carrier s \<noteq> ON \<and> tx_bits s = 0 \<and> tx_clk s = 0 \<and> 0 < carBits s \<longrightarrow>
            txSymbols sv (unat (carBits s) * (unat (fulBit s) + 1)) s =
              replicate (unat (carBits s) - 1) (PREAMBLE, tx_dtbit s) @ [(START_BIT, SPACE)])"
proof (intro conjI impI)
  assume nb: "\<not> tx_boundary s"
  then have "\<not> fulBit s \<le> tx_clk s" using assms(2) by (simp add: tx_boundary_def)
  from txHandle_tick [OF assms(2) this, of sv]
  show "tx_state (txHandle sv s) = PREAMBLE" "tx_dtbit (txHandle sv s) = tx_dtbit s"
    "tx_bits (txHandle sv s) = tx_bits s"
    using assms(1) by simp_all
next
  assume "tx_boundary s"
  then have "fulBit s \<le> tx_clk s" by (simp add: tx_boundary_def)
  note h = txHandle_boundary [OF assms(2) this, of sv]
  show "tx_bits (txHandle sv s) = tx_bits s + 1"
    using assms(1) by (simp add: h txNextBit_PREAMBLE)
  show "if carBits s \<le> tx_bits s + 1 \<or> tx_carrier s = ON
        then tx_state (txHandle sv s) = START_BIT \<and> tx_dtbit (txHandle sv s) = SPACE
        else tx_state (txHandle sv s) = PREAMBLE \<and> tx_dtbit (txHandle sv s) = tx_dtbit s"
    using assms(1) by (simp add: h txNextBit_PREAMBLE)
next
  assume a: "tx_carrier s \<noteq> ON \<and> tx_bits s = 0 \<and> tx_clk s = 0 \<and> 0 < carBits s"
  from preamble_run [OF assms(1,2)] a
  have fr: "txFrames (unat (carBits s)) s =
           replicate (unat (carBits s) - 1) (PREAMBLE, tx_dtbit s) @ [(START_BIT, SPACE)]"
    and live: "tx_live (unat (carBits s)) s" by simp_all
  have "txSymbols sv (unat (carBits s) * (unat (fulBit s) + 1)) s = txFrames (unat (carBits s)) s"
    using tx_sim_refl _ live by (rule txSymbols_frames) (simp add: a)
  then show "txSymbols sv (unat (carBits s) * (unat (fulBit s) + 1)) s =
              replicate (unat (carBits s) - 1) (PREAMBLE, tx_dtbit s) @ [(START_BIT, SPACE)]"
    by (simp only: fr)
qed

lemma pre_fields:
  "tx_state pre_off = PREAMBLE" "tx_on pre_off" "tx_boundary pre_off" "tx_carrier pre_off = OFF"
  "tx_bits pre_off = 0" "carBits pre_off = 3" "tx_dtbit pre_off = MARK"
  "tx_state pre_on = PREAMBLE" "tx_on pre_on" "tx_boundary pre_on" "tx_carrier pre_on = ON"
  "tx_bits pre_on = 0" "carBits pre_on = 3" "tx_dtbit pre_on = MARK"
  "tx_state pre_start = PREAMBLE" "tx_on pre_start" "\<not> tx_boundary pre_start"
  "tx_carrier pre_start = OFF" "tx_bits pre_start = 0" "carBits pre_start = 3"
  "tx_dtbit pre_start = MARK" "tx_clk pre_start = 0" "fulBit pre_start = 32"
  by (simp_all add: pre_off_def pre_on_def pre_start_def modem0_fields modem0_timing_fields
      tx_on_def tx_boundary_def ON_def OFF_def)

theorem preamble_until_count_or_carrier_on_witness:
  "tx_state pre_start = PREAMBLE \<and> tx_on pre_start \<and> \<not> tx_boundary pre_start \<and>
   tx_state (txHandle sv0 pre_start) = PREAMBLE \<and> tx_dtbit (txHandle sv0 pre_start) = MARK \<and>
   tx_carrier pre_start \<noteq> ON \<and> tx_bits pre_start = 0 \<and> tx_clk pre_start = 0 \<and>
   0 < carBits pre_start \<and>
   txSymbols sv0 99 pre_start = [(PREAMBLE, MARK), (PREAMBLE, MARK), (START_BIT, SPACE)] \<and>
   tx_state pre_off = PREAMBLE \<and> tx_on pre_off \<and> tx_boundary pre_off \<and>
   tx_state (txHandle sv0 pre_off) = PREAMBLE \<and> tx_dtbit (txHandle sv0 pre_off) = MARK \<and>
   tx_state pre_on = PREAMBLE \<and> tx_on pre_on \<and> tx_boundary pre_on \<and>
   tx_state (txHandle sv0 pre_on) = START_BIT \<and> tx_dtbit (txHandle sv0 pre_on) = SPACE"
proof -
  have n: "unat (carBits pre_start) * (unat (fulBit pre_start) + 1) = 99"
    by (simp add: pre_fields)
  have r: "replicate (unat (carBits pre_start) - 1) (PREAMBLE, tx_dtbit pre_start) =
           [(PREAMBLE, MARK), (PREAMBLE, MARK)]"
  proof -
    have "unat (carBits pre_start) - 1 = Suc (Suc 0)" by (simp add: pre_fields)
    then show ?thesis by (simp add: pre_fields(21))
  qed
  note a = preamble_until_count_or_carrier_on [OF pre_fields(15,16), of sv0]
  note b = preamble_until_count_or_carrier_on [OF pre_fields(1,2), of sv0]
  note c = preamble_until_count_or_carrier_on [OF pre_fields(8,9), of sv0]
  have pre: "tx_carrier pre_start \<noteq> ON \<and> tx_bits pre_start = 0 \<and> tx_clk pre_start = 0 \<and>
             0 < carBits pre_start"
    by (simp add: pre_fields ON_def OFF_def)
  have a3: "txSymbols sv0 99 pre_start = [(PREAMBLE, MARK), (PREAMBLE, MARK), (START_BIT, SPACE)]"
    using mp [OF conjunct2 [OF conjunct2 [OF a]] pre] by (simp only: n r append.simps)
  have a1: "tx_state (txHandle sv0 pre_start) = PREAMBLE \<and> tx_dtbit (txHandle sv0 pre_start) = MARK"
    using mp [OF conjunct1 [OF a] pre_fields(17)] by (simp add: pre_fields)
  have b2: "tx_state (txHandle sv0 pre_off) = PREAMBLE \<and> tx_dtbit (txHandle sv0 pre_off) = MARK"
    using mp [OF conjunct1 [OF conjunct2 [OF b]] pre_fields(3)]
    by (simp add: pre_fields ON_def OFF_def word_le_nat_alt)
  have c2: "tx_state (txHandle sv0 pre_on) = START_BIT \<and> tx_dtbit (txHandle sv0 pre_on) = SPACE"
    using mp [OF conjunct1 [OF conjunct2 [OF c]] pre_fields(10)]
    by (simp add: pre_fields)
  show ?thesis
    using a1 b2 c2 a3 pre by (simp add: pre_fields del: txSymbols.simps)
qed

text \<open>
  Against claim C9 as worded ("or until the forced-carrier flag is cleared"): at
  the end of the first of three preamble periods, with the flag cleared, MARK is
  still held in PREAMBLE; with the flag set, and the three periods not over, the
  start bit begins.
\<close>

theorem preamble_carrier_cleared_counterexample:
  "tx_state pre_off = PREAMBLE \<and> tx_boundary pre_off \<and> tx_carrier pre_off = OFF \<and>
   tx_state (txHandle sv0 pre_off) = PREAMBLE \<and> tx_dtbit (txHandle sv0 pre_off) = MARK \<and>
   tx_state pre_on = PREAMBLE \<and> tx_boundary pre_on \<and> tx_carrier pre_on = ON \<and>
   unat (tx_bits pre_on) + 1 < unat (carBits pre_on) \<and>
   tx_state (txHandle sv0 pre_on) = START_BIT \<and> tx_dtbit (txHandle sv0 pre_on) = SPACE"
  by (simp add: pre_fields txHandle_def txNextBit_PREAMBLE Let_def tx_on_def ON_def OFF_def
      pre_off_def pre_on_def modem0_fields modem0_timing_fields SPACE_def MARK_def word_le_nat_alt
      tx_boundary_def)

section \<open>The RX decoder: sample windows\<close>

lemma rx_timing_setModemType: "rx_timing (setModemType_timing f b s)"
  by (simp add: rx_timing_def setModemType_timing_def Let_def drop_bit_drop_bit
      numeral_2_eq_2 numeral_3_eq_3)

lemma rxFeed_append: "rxFeed (xs @ ys) s = rxFeed ys (rxFeed xs s)"
  by (induction xs arbitrary: s) simp_all

lemma highs_Cons: "b = 0 \<or> b = 1 \<Longrightarrow> (of_nat (highs (b # bs)) :: u8) = b + of_nat (highs bs)"
  by (auto simp: highs_def)

lemma highs_le: "highs bs \<le> length bs"
  by (simp add: highs_def)

lemma highs_append: "highs (xs @ ys) = highs xs + highs ys"
  by (simp add: highs_def)

lemma rxDecoder_count:
  assumes "rx_state s \<in> {PREAMBLE, START_BIT, DATA_BIT, STOP_BIT}"
    and "unat (rx_clk s) + 1 < unat (rx_limit s)"
  shows "rxDecoder b s = s\<lparr>rx_bitsum := rx_bitsum s + b,
                            rx_stream := push_bit 1 (rx_stream s) OR b,
                            rx_clk := rx_clk s + 1\<rparr>"
proof -
  have "unat (rx_clk s) < unat (rx_limit s)" using assms(2) by simp
  then have "unat (rx_clk s + 1) = Suc (unat (rx_clk s))" by (rule unat_u8_Suc)
  then have "\<not> rx_limit s \<le> rx_clk s + 1" using assms(2) by (simp add: word_le_nat_alt)
  then show ?thesis
    using assms(1) by (cases "rx_state s") (simp_all add: rxDecoder_def rx_limit_def Let_def)
qed

lemma rxFeed_count:
  "rx_state s \<in> {PREAMBLE, START_BIT, DATA_BIT, STOP_BIT} \<Longrightarrow>
   unat (rx_clk s) + length bs < unat (rx_limit s) \<Longrightarrow> set bs \<subseteq> {0, 1} \<Longrightarrow>
   \<exists>x. rxFeed bs s = s\<lparr>rx_bitsum := rx_bitsum s + of_nat (highs bs),
                          rx_stream := x,
                          rx_clk := rx_clk s + of_nat (length bs)\<rparr>"
proof (induction bs arbitrary: s)
  case Nil
  have "rxFeed [] s = s\<lparr>rx_bitsum := rx_bitsum s + of_nat (highs []),
                          rx_stream := rx_stream s,
                          rx_clk := rx_clk s + of_nat (length ([]::u8 list))\<rparr>"
    by (simp add: highs_def)
  then show ?case by (rule exI)
next
  case (Cons b bs)
  let ?s = "s\<lparr>rx_bitsum := rx_bitsum s + b,
               rx_stream := push_bit 1 (rx_stream s) OR b,
               rx_clk := rx_clk s + 1\<rparr>"
  have lt: "unat (rx_clk s) + 1 < unat (rx_limit s)" using Cons.prems(2) by simp
  have d: "rxDecoder b s = ?s" using Cons.prems(1) lt by (rule rxDecoder_count)
  have "unat (rx_clk s) < unat (rx_limit s)" using lt by simp
  then have c: "unat (rx_clk s + 1) = Suc (unat (rx_clk s))" by (rule unat_u8_Suc)
  have lim: "rx_limit ?s = rx_limit s" by (simp add: rx_limit_def)
  have b01: "b = 0 \<or> b = 1" using Cons.prems(3) by auto
  have "rx_state ?s \<in> {PREAMBLE, START_BIT, DATA_BIT, STOP_BIT}"
    "unat (rx_clk ?s) + length bs < unat (rx_limit ?s)" "set bs \<subseteq> {0, 1}"
    using Cons.prems c lim by simp_all
  from Cons.IH [OF this] obtain x where
    x: "rxFeed bs ?s = ?s\<lparr>rx_bitsum := rx_bitsum ?s + of_nat (highs bs), rx_stream := x,
                          rx_clk := rx_clk ?s + of_nat (length bs)\<rparr>"
    by blast
  have "rxFeed (b # bs) s = s\<lparr>rx_bitsum := rx_bitsum s + of_nat (highs (b # bs)),
                          rx_stream := x,
                          rx_clk := rx_clk s + of_nat (length (b # bs))\<rparr>"
    using x d by (simp add: highs_Cons [OF b01] add.assoc)
  then show ?case by blast
qed


lemma rxFeed_count_fields:
  assumes "rx_state s \<in> {PREAMBLE, START_BIT, DATA_BIT, STOP_BIT}"
    and "unat (rx_clk s) + length bs < unat (rx_limit s)" and "set bs \<subseteq> {0, 1}"
  shows "rx_state (rxFeed bs s) = rx_state s" "rxFIFO (rxFeed bs s) = rxFIFO s"
    "rx_data (rxFeed bs s) = rx_data s"
    "rx_bitsum (rxFeed bs s) = rx_bitsum s + of_nat (highs bs)"
    "rx_clk (rxFeed bs s) = rx_clk s + of_nat (length bs)"
    "hlfBit (rxFeed bs s) = hlfBit s" "fulBit (rxFeed bs s) = fulBit s"
    "qrtBit (rxFeed bs s) = qrtBit s" "octBit (rxFeed bs s) = octBit s"
proof -
  from rxFeed_count [OF assms] obtain x where
    x: "rxFeed bs s = s\<lparr>rx_bitsum := rx_bitsum s + of_nat (highs bs), rx_stream := x,
                         rx_clk := rx_clk s + of_nat (length bs)\<rparr>" by blast
  show "rx_state (rxFeed bs s) = rx_state s" "rxFIFO (rxFeed bs s) = rxFIFO s"
    "rx_data (rxFeed bs s) = rx_data s"
    "rx_bitsum (rxFeed bs s) = rx_bitsum s + of_nat (highs bs)"
    "rx_clk (rxFeed bs s) = rx_clk s + of_nat (length bs)"
    "hlfBit (rxFeed bs s) = hlfBit s" "fulBit (rxFeed bs s) = fulBit s"
    "qrtBit (rxFeed bs s) = qrtBit s" "octBit (rxFeed bs s) = octBit s"
    by (simp_all add: x)
qed

lemma rxDecoder_PREAMBLE_check:
  "rx_state s = PREAMBLE \<Longrightarrow> hlfBit s \<le> rx_clk s + 1 \<Longrightarrow>
   rx_state (rxDecoder b s) = (if octBit s < rx_bitsum s + b then WAIT else START_BIT)"
  by (simp add: rxDecoder_def Let_def)

lemma rxDecoder_STOP_check:
  "rx_state s = STOP_BIT \<Longrightarrow> fulBit s \<le> rx_clk s + 1 \<Longrightarrow>
   rx_state (rxDecoder b s) = WAIT \<and>
   rxFIFO (rxDecoder b s) =
     (if qrtBit s < rx_bitsum s + b then snd (fifo_in (rx_data s) (rxFIFO s)) else rxFIFO s)"
  by (simp add: rxDecoder_def Let_def)

lemma highs_snoc: "b = 0 \<or> b = 1 \<Longrightarrow> (of_nat (highs (bs @ [b])) :: u8) = of_nat (highs bs) + b"
  by (auto simp: highs_def)

lemma unat_drop_bit_u8: "unat (drop_bit n (w::u8)) = unat w div 2 ^ n"
proof -
  have "unat (drop_bit n w) = drop_bit n (unat w)" by (rule unat_drop_bit_eq)
  also have "\<dots> = unat w div 2 ^ n" by (rule drop_bit_eq_div)
  finally show ?thesis .
qed

lemma div_less_mult_nat: "0 < q \<Longrightarrow> (a div q < h) = (a < q * (h::nat))"
  by (simp add: div_less_iff_less_mult mult.commute)

section \<open>The RX decoder: validating the start bit\<close>

lemma snoc_split: "bs \<noteq> [] \<Longrightarrow> bs = butlast bs @ [last bs]"
  by simp

lemma unat_of_nat_highs:
  assumes "length bs \<le> unat (w::u8)"
  shows "unat (of_nat (highs bs) :: u8) = highs bs"
proof -
  have "highs bs \<le> unat w" using highs_le [of bs] assms by simp
  then show ?thesis by (rule le_unat_uoi)
qed

lemma of_nat_add_pred_u8:
  assumes "unat (a::u8) + m = unat (w::u8)" and "0 < m"
  shows "a + of_nat (m - 1) + 1 = w"
proof -
  have "a + of_nat (m - 1) + 1 = of_nat (unat a + (m - 1) + 1)" by simp
  also have "unat a + (m - 1) + 1 = unat w" using assms by simp
  finally show ?thesis by simp
qed

text \<open>
  Claim C6, as the code has it. The decoder has just entered PREAMBLE (sample
  counter and HIGH count reset) and the bit times are those \<open>setModemType\<close> computes.
  While fewer than \<open>hlfBit\<close> samples have been fed it stays in PREAMBLE; with the
  sample number \<open>hlfBit\<close> it returns to WAIT exactly when the number of HIGH samples
  exceeds \<open>octBit\<close>, that is one eighth of a full bit period (a quarter of the
  half-period window), and goes to START_BIT otherwise.
\<close>

theorem rx_preamble_threshold:
  assumes "rx_state s = PREAMBLE" and "rx_clk s = 0" and "rx_bitsum s = 0"
    and "rx_timing s" and "2 \<le> fulBit s"
    and "length bs = unat (hlfBit s)" and "set bs \<subseteq> {0, 1}"
  shows "(\<forall>n<length bs. rx_state (rxFeed (take n bs) s) = PREAMBLE) \<and>
         rx_state (rxFeed bs s) =
           (if unat (octBit s) < highs bs then WAIT else START_BIT) \<and>
         (unat (octBit s) < highs bs) = (unat (fulBit s) < 8 * highs bs)"
proof (intro conjI allI impI)
  have st: "rx_state s \<in> {PREAMBLE, START_BIT, DATA_BIT, STOP_BIT}" using assms(1) by simp
  have lim: "rx_limit s = hlfBit s" using assms(1) by (simp add: rx_limit_def)
  have h: "unat (hlfBit s) = unat (fulBit s) div 2" "unat (octBit s) = unat (fulBit s) div 8"
    using assms(4) by (simp_all add: rx_timing_def unat_drop_bit_u8)
  have "2 \<le> unat (fulBit s)" using assms(5) by (simp add: word_le_nat_alt)
  then have pos: "0 < length bs" using assms(6) h by simp
  {
    fix n assume n: "n < length bs"
    have "unat (rx_clk s) + length (take n bs) < unat (rx_limit s)"
      using n assms(2,6) lim by simp
    moreover have "set (take n bs) \<subseteq> {0, 1}"
      using assms(7) set_take_subset [of n bs] by blast
    ultimately show "rx_state (rxFeed (take n bs) s) = PREAMBLE"
      using rxFeed_count_fields(1) [OF st] assms(1) by simp
  }
  show "(unat (octBit s) < highs bs) = (unat (fulBit s) < 8 * highs bs)"
    by (simp add: h div_less_mult_nat)
  let ?bs = "butlast bs" and ?b = "last bs"
  have ne: "bs \<noteq> []" using pos by auto
  have b01: "?b = 0 \<or> ?b = 1" using assms(7) last_in_set [OF ne] by auto
  have sub: "set ?bs \<subseteq> {0, 1}" using assms(7) in_set_butlastD by fastforce
  have len: "unat (rx_clk s) + length ?bs < unat (rx_limit s)"
    using assms(2,6) lim pos by simp
  note f = rxFeed_count_fields [OF st len sub]
  let ?s = "rxFeed ?bs s"
  have clk: "rx_clk ?s + 1 = hlfBit s"
    using of_nat_add_pred_u8 [of 0 "length bs" "hlfBit s"] assms(6) pos
    by (simp add: f(5) assms(2))
  have sum: "rx_bitsum ?s + ?b = of_nat (highs bs)"
    using highs_snoc [OF b01, of ?bs] ne by (simp add: f(4) assms(3))
  have "rxFeed bs s = rxDecoder ?b ?s"
    using rxFeed_append [of ?bs "[?b]" s] ne by simp
  then have "rx_state (rxFeed bs s) = (if octBit s < of_nat (highs bs) then WAIT else START_BIT)"
    using rxDecoder_PREAMBLE_check [of ?s ?b] f(1,6,9) assms(1) clk sum by simp
  moreover have "unat (of_nat (highs bs) :: u8) = highs bs"
    by (rule unat_of_nat_highs [of bs "hlfBit s"]) (simp add: assms(6))
  ultimately show "rx_state (rxFeed bs s) = (if unat (octBit s) < highs bs then WAIT else START_BIT)"
    by (simp add: word_less_nat_alt)
qed

lemma rx_edge_fields:
  "rx_state rx_edge = PREAMBLE" "rx_clk rx_edge = 0" "rx_bitsum rx_edge = 0"
  "fulBit rx_edge = 32" "hlfBit rx_edge = 16" "qrtBit rx_edge = 8" "octBit rx_edge = 4"
  by (simp_all add: rx_edge_def rxDecoder_def Let_def modem0_fields modem0_timing_fields)

lemma rx_timing_modem0: "rx_timing modem0"
  by (simp add: modem0_def init_guard_def rx_timing_setModemType [unfolded rx_timing_def] rx_timing_def)

lemma rx_timing_rx_edge: "rx_timing rx_edge"
  using rx_timing_modem0
  by (simp add: rx_timing_def rx_edge_def rxDecoder_def Let_def modem0_fields)

lemma windows:
  "length noisy_start = 16" "highs noisy_start = 3" "set noisy_start \<subseteq> {0, 1}"
  "length stop_window = 16" "highs stop_window = 16" "set stop_window \<subseteq> {0, 1}"
  by (auto simp: noisy_start_def stop_window_def highs_def)

theorem rx_preamble_threshold_witness:
  "rx_state rx_edge = PREAMBLE \<and> rx_clk rx_edge = 0 \<and> rx_bitsum rx_edge = 0 \<and>
   length noisy_start = unat (hlfBit rx_edge) \<and> highs noisy_start = 3 \<and>
   unat (octBit rx_edge) = 4 \<and>
   rx_state (rxFeed noisy_start rx_edge) = START_BIT \<and>
   length stop_window = unat (hlfBit rx_edge) \<and> highs stop_window = 16 \<and>
   rx_state (rxFeed stop_window rx_edge) = WAIT"
proof -
  have f: "2 \<le> fulBit rx_edge" by (simp add: rx_edge_fields)
  have l1: "length noisy_start = unat (hlfBit rx_edge)" by (simp add: rx_edge_fields windows)
  have l2: "length stop_window = unat (hlfBit rx_edge)" by (simp add: rx_edge_fields windows)
  note a = rx_preamble_threshold [OF rx_edge_fields(1,2,3) rx_timing_rx_edge f l1 windows(3)]
  note b = rx_preamble_threshold [OF rx_edge_fields(1,2,3) rx_timing_rx_edge f l2 windows(6)]
  have "rx_state (rxFeed noisy_start rx_edge) = START_BIT"
    using conjunct1 [OF conjunct2 [OF a]] by (simp add: rx_edge_fields windows)
  moreover have "rx_state (rxFeed stop_window rx_edge) = WAIT"
    using conjunct1 [OF conjunct2 [OF b]] by (simp add: rx_edge_fields windows)
  ultimately show ?thesis
    by (simp add: rx_edge_fields windows)
qed

text \<open>
  Against claim C6 as worded ("more than 1/8 of the samples"): after the edge,
  three of the sixteen samples of the half bit period are HIGH, more than one
  eighth of them, and the decoder accepts the start bit.
\<close>

theorem rx_preamble_eighth_counterexample:
  "rx_state rx_edge = PREAMBLE \<and> rx_clk rx_edge = 0 \<and> rx_bitsum rx_edge = 0 \<and>
   length noisy_start = unat (hlfBit rx_edge) \<and>
   length noisy_start < 8 * highs noisy_start \<and>
   rx_state (rxFeed noisy_start rx_edge) = START_BIT"
  by (simp add: rx_edge_def noisy_start_def highs_def rxDecoder_def Let_def
      modem0_fields modem0_timing_fields word_le_nat_alt word_less_nat_alt)

section \<open>The RX decoder: the stop bit\<close>

text \<open>
  Claim C7. The decoder has just entered STOP_BIT (sample counter at \<open>hlfBit\<close>, HIGH
  count reset) and the bit times are those \<open>setModemType\<close> computes. Until the
  counter reaches \<open>fulBit\<close>, that is for the first half bit period less one sample,
  it stays in STOP_BIT and leaves the RX queue alone. With the last sample of the
  half period it calls \<open>rxFIFO.in\<close> with the assembled byte exactly when the number
  of HIGH samples exceeds \<open>qrtBit\<close>, one quarter of a full bit period, and otherwise
  leaves the queue as it was; either way the state is WAIT. A byte pushed into a
  queue that is not full is appended to its contents.
\<close>

theorem rx_stop_bit_threshold:
  assumes "rx_state s = STOP_BIT" and "rx_clk s = hlfBit s" and "rx_bitsum s = 0"
    and "rx_timing s" and "1 \<le> fulBit s"
    and "unat (hlfBit s) + length bs = unat (fulBit s)" and "set bs \<subseteq> {0, 1}"
  shows "(\<forall>n<length bs. rx_state (rxFeed (take n bs) s) = STOP_BIT \<and>
                         rxFIFO (rxFeed (take n bs) s) = rxFIFO s) \<and>
         rx_state (rxFeed bs s) = WAIT \<and>
         rxFIFO (rxFeed bs s) =
           (if unat (qrtBit s) < highs bs then snd (fifo_in (rx_data s) (rxFIFO s))
            else rxFIFO s) \<and>
         (unat (qrtBit s) < highs bs) = (unat (fulBit s) < 4 * highs bs) \<and>
         (unat (qrtBit s) < highs bs \<and> fifo_wf (rxFIFO s) \<and> \<not> fifo_full (rxFIFO s) \<longrightarrow>
            fifo_contents (rxFIFO (rxFeed bs s)) = fifo_contents (rxFIFO s) @ [rx_data s])"
proof -
  have st: "rx_state s \<in> {PREAMBLE, START_BIT, DATA_BIT, STOP_BIT}" using assms(1) by simp
  have lim: "rx_limit s = fulBit s" using assms(1) by (simp add: rx_limit_def)
  have h: "unat (hlfBit s) = unat (fulBit s) div 2" "unat (qrtBit s) = unat (fulBit s) div 4"
    using assms(4) by (simp_all add: rx_timing_def unat_drop_bit_u8)
  have "1 \<le> unat (fulBit s)" using assms(5) by (simp add: word_le_nat_alt)
  then have pos: "0 < length bs" using assms(6) h by linarith
  have pre: "rx_state (rxFeed (take n bs) s) = STOP_BIT \<and> rxFIFO (rxFeed (take n bs) s) = rxFIFO s"
    if n: "n < length bs" for n
  proof -
    have "unat (rx_clk s) + length (take n bs) < unat (rx_limit s)"
      using n assms(2,6) lim by simp
    moreover have "set (take n bs) \<subseteq> {0, 1}"
      using assms(7) set_take_subset [of n bs] by blast
    ultimately show ?thesis
      using rxFeed_count_fields(1,2) [OF st] assms(1) by simp
  qed
  have thr: "(unat (qrtBit s) < highs bs) = (unat (fulBit s) < 4 * highs bs)"
    by (simp add: h div_less_mult_nat)
  let ?bs = "butlast bs" and ?b = "last bs"
  have ne: "bs \<noteq> []" using pos by auto
  have b01: "?b = 0 \<or> ?b = 1" using assms(7) last_in_set [OF ne] by auto
  have sub: "set ?bs \<subseteq> {0, 1}" using assms(7) in_set_butlastD by fastforce
  have lb: "Suc (length ?bs) = length bs"
    using ne by (cases bs rule: rev_cases) simp_all
  have "unat (hlfBit s) + length ?bs < unat (fulBit s)"
    using assms(6) lb by linarith
  then have len: "unat (rx_clk s) + length ?bs < unat (rx_limit s)"
    by (simp only: assms(2) lim)
  note f = rxFeed_count_fields [OF st len sub]
  let ?s = "rxFeed ?bs s"
  have "hlfBit s + of_nat (length bs - 1) + 1 = fulBit s"
    by (rule of_nat_add_pred_u8 [OF assms(6) pos])
  then have clk: "rx_clk ?s + 1 = fulBit s"
    by (simp only: f(5) assms(2) length_butlast)
  have sum: "rx_bitsum ?s + ?b = of_nat (highs bs)"
    using highs_snoc [OF b01, of ?bs] ne by (simp add: f(4) assms(3))
  have fd: "rxFeed bs s = rxDecoder ?b ?s"
    using rxFeed_append [of ?bs "[?b]" s] ne by simp
  have u: "unat (of_nat (highs bs) :: u8) = highs bs"
    by (rule unat_of_nat_highs [of bs "fulBit s"]) (use assms(6) in simp)
  have cmp: "(qrtBit s < of_nat (highs bs)) = (unat (qrtBit s) < highs bs)"
    by (simp add: word_less_nat_alt u)
  note chk = rxDecoder_STOP_check [of ?s ?b]
  have wait: "rx_state (rxFeed bs s) = WAIT"
    using chk f(1,7) assms(1) clk by (simp add: fd)
  have q: "rxFIFO (rxFeed bs s) =
           (if unat (qrtBit s) < highs bs then snd (fifo_in (rx_data s) (rxFIFO s))
            else rxFIFO s)"
    using chk f(1,2,3,7,8) assms(1) clk sum cmp by (simp add: fd)
  have app: "fifo_contents (rxFIFO (rxFeed bs s)) = fifo_contents (rxFIFO s) @ [rx_data s]"
    if "unat (qrtBit s) < highs bs \<and> fifo_wf (rxFIFO s) \<and> \<not> fifo_full (rxFIFO s)"
    using that by (simp add: q fifo_contents_in)
  show ?thesis
    using pre wait q thr app by blast
qed

lemma rx_stop_fields:
  "rx_state rx_stop = STOP_BIT" "rx_clk rx_stop = hlfBit rx_stop" "rx_bitsum rx_stop = 0"
  "fulBit rx_stop = 32" "hlfBit rx_stop = 16" "qrtBit rx_stop = 8" "rx_data rx_stop = 0x41"
  "rxFIFO rx_stop = FIFO 6"
  by (simp_all add: rx_stop_def modem0_fields modem0_timing_fields)

lemma rx_timing_rx_stop: "rx_timing rx_stop"
  using rx_timing_modem0 by (simp add: rx_timing_def rx_stop_def)

lemma low_window:
  "length (replicate 16 (0::u8)) = 16" "highs (replicate 16 0) = 0"
  "set (replicate 16 (0::u8)) \<subseteq> {0, 1}"
  by (simp_all add: highs_def)

theorem rx_stop_bit_threshold_witness:
  "rx_state rx_stop = STOP_BIT \<and> rx_clk rx_stop = hlfBit rx_stop \<and> rx_bitsum rx_stop = 0 \<and>
   unat (hlfBit rx_stop) + length stop_window = unat (fulBit rx_stop) \<and>
   highs stop_window = 16 \<and> unat (qrtBit rx_stop) = 8 \<and>
   rx_state (rxFeed stop_window rx_stop) = WAIT \<and>
   fifo_contents (rxFIFO (rxFeed stop_window rx_stop)) = [0x41] \<and>
   highs (replicate 16 0) = 0 \<and>
   rx_state (rxFeed (replicate 16 0) rx_stop) = WAIT \<and>
   rxFIFO (rxFeed (replicate 16 0) rx_stop) = rxFIFO rx_stop"
proof -
  have f: "1 \<le> fulBit rx_stop" by (simp add: rx_stop_fields)
  have l1: "unat (hlfBit rx_stop) + length stop_window = unat (fulBit rx_stop)"
    by (simp add: rx_stop_fields windows)
  have l2: "unat (hlfBit rx_stop) + length (replicate 16 (0::u8)) = unat (fulBit rx_stop)"
    by (simp add: rx_stop_fields)
  note a = rx_stop_bit_threshold [OF rx_stop_fields(1,2,3) rx_timing_rx_stop f l1 windows(6)]
  note b = rx_stop_bit_threshold [OF rx_stop_fields(1,2,3) rx_timing_rx_stop f l2 low_window(3)]
  have nf: "fifo_wf (rxFIFO rx_stop)" "fifo_contents (rxFIFO rx_stop) = []"
    by (simp_all add: rx_stop_fields fifo_wf_FIFO fifo_contents_FIFO)
  have nf3: "\<not> fifo_full (rxFIFO rx_stop)"
    by (simp add: rx_stop_fields fifo_full_def FIFO_def capacity_def)
  have a1: "rx_state (rxFeed stop_window rx_stop) = WAIT"
    using a by blast
  have a2: "fifo_contents (rxFIFO (rxFeed stop_window rx_stop)) = [0x41]"
    using conjunct2 [OF conjunct2 [OF conjunct2 [OF conjunct2 [OF a]]]] nf nf3
    by (simp add: rx_stop_fields(4,5,6,7) windows)
  have b1: "rx_state (rxFeed (replicate 16 0) rx_stop) = WAIT"
    using b by blast
  have b2: "rxFIFO (rxFeed (replicate 16 0) rx_stop) = rxFIFO rx_stop"
    using conjunct1 [OF conjunct2 [OF conjunct2 [OF b]]]
    by (simp only: low_window(2)) simp
  show ?thesis
    using a1 a2 b1 b2 by (simp add: rx_stop_fields windows low_window)
qed

section \<open>The serial bridge: flow control\<close>

lemma unat_thresholds: "unat fifoLow = 16" "unat fifoMed = 32" "unat fifoHgh = 48"
  by (simp_all add: fifo_thresholds)

lemma fifo_len_in: "fifo_len f \<le> fifo_len (snd (fifo_in c f))"
  by (simp add: fifo_in_def fifo_len_def)

lemma doSIO_escape_keeps:
  "flowControl (doSIO_escape now av s) = flowControl s"
  "txFIFO (doSIO_escape now av s) = txFIFO s"
  "cfg_flwctr (doSIO_escape now av s) = cfg_flwctr s"
  "sregs (doSIO_escape now av s) = sregs s"
  "guard (doSIO_escape now av s) = guard s"
  "escFirst (doSIO_escape now av s) = escFirst s"
  "escLast (doSIO_escape now av s) = escLast s"
  "lstChar (doSIO_escape now av s) = lstChar s"
  "PORTB (doSIO_escape now av s) = PORTB s"
  by (simp_all add: doSIO_escape_def setMode_def serial_read_def Let_def split: list.splits)

lemma doSIO_count_keeps:
  "flowControl (doSIO_count now av s) = flowControl s"
  "txFIFO (doSIO_count now av s) = txFIFO s"
  "cfg_flwctr (doSIO_count now av s) = cfg_flwctr s"
  "sregs (doSIO_count now av s) = sregs s"
  "guard (doSIO_count now av s) = guard s"
  "lstChar (doSIO_count now av s) = lstChar s"
  "mode (doSIO_count now av s) = mode s"
  "serial_in (doSIO_count now av s) = serial_in s"
  "serial_out (doSIO_count now av s) = serial_out s"
  "PORTB (doSIO_count now av s) = PORTB s"
  by (simp_all add: doSIO_count_def Let_def)

lemma doSIO_take_flow:
  "flowControl (doSIO_take now av s) =
     (if fifo_len (txFIFO s) < 48 then flowControl s else (flowControl s \<or> cfg_flwctr s \<noteq> 0))"
  by (simp add: doSIO_take_def Let_def unat_thresholds serial_write_def serial_read_def
      split: list.splits)

lemma doSIO_take_len:
  "fifo_len (txFIFO s) \<le> fifo_len (txFIFO (doSIO_take now av s))"
  "\<not> fifo_len (txFIFO s) < 48 \<Longrightarrow> txFIFO (doSIO_take now av s) = txFIFO s"
  by (simp_all add: doSIO_take_def Let_def unat_thresholds serial_write_def serial_read_def
      fifo_len_in split: list.splits)

lemma doSIO_release_flow:
  "flowControl (doSIO_release s) = (flowControl s \<and> \<not> fifo_len (txFIFO s) < 16)"
  "txFIFO (doSIO_release s) = txFIFO s"
  by (auto simp: doSIO_release_def Let_def unat_thresholds serial_write_def)

lemma doSIO_drain_keeps:
  "flowControl (doSIO_drain s) = flowControl s"
  "txFIFO (doSIO_drain s) = txFIFO s"
  "mode (doSIO_drain s) = mode s"
  "escCount (doSIO_drain s) = escCount s"
  by (simp_all add: doSIO_drain_def serial_write_def split: option.splits)

lemma doSIO_flow:
  assumes "fst (doSIO now s)"
  shows "flowControl (snd (doSIO now s)) =
           ((if fifo_len (txFIFO s) < 48 then flowControl s
             else (flowControl s \<or> cfg_flwctr s \<noteq> 0)) \<and>
            16 \<le> fifo_len (txFIFO (snd (doSIO now s))))"
    and "fifo_len (txFIFO s) \<le> fifo_len (txFIFO (snd (doSIO now s)))"
    and "\<not> fifo_len (txFIFO s) < 48 \<Longrightarrow> txFIFO (snd (doSIO now s)) = txFIFO s"
proof -
  let ?av = "serial_in s \<noteq> []"
  let ?s2 = "doSIO_count now ?av (doSIO_escape now ?av s)"
  have d: "doSIO now s = doSIO_data now ?av ?s2" by (simp add: doSIO_def Let_def)
  have m: "mode ?s2 \<noteq> COMMAND_MODE"
    using assms by (simp add: d doSIO_data_def split: if_splits)
  have r: "snd (doSIO now s) = doSIO_drain (doSIO_release (doSIO_take now ?av ?s2))"
    using m by (simp add: d doSIO_data_def)
  have k: "flowControl ?s2 = flowControl s" "txFIFO ?s2 = txFIFO s" "cfg_flwctr ?s2 = cfg_flwctr s"
    by (simp_all add: doSIO_count_keeps doSIO_escape_keeps)
  show "flowControl (snd (doSIO now s)) =
           ((if fifo_len (txFIFO s) < 48 then flowControl s
             else (flowControl s \<or> cfg_flwctr s \<noteq> 0)) \<and>
            16 \<le> fifo_len (txFIFO (snd (doSIO now s))))"
    by (simp add: r doSIO_drain_keeps doSIO_release_flow doSIO_take_flow k not_less)
  show "fifo_len (txFIFO s) \<le> fifo_len (txFIFO (snd (doSIO now s)))"
    using doSIO_take_len(1) [of ?s2 now ?av]
    by (simp add: r doSIO_drain_keeps doSIO_release_flow k)
  show "txFIFO (snd (doSIO now s)) = txFIFO s" if "\<not> fifo_len (txFIFO s) < 48"
    using doSIO_take_len(2) [of ?s2 now ?av] that
    by (simp add: r doSIO_drain_keeps doSIO_release_flow k)
qed

text \<open>
  Claim C2, as the code has it. For a call of the serial bridge that runs the data
  path (it returns true), with \<open>len\<close> the length of the TX queue: if backpressure
  is off and the call finds \<open>len < 48\<close> it stays off; if it is off, the call finds
  \<open>len >= 48\<close> and a flow-control mode is configured, it is switched on; with no
  flow-control mode configured it is never switched on; if it is on, it stays on
  exactly when the queue, after the byte this call may have accepted, holds 16
  bytes or more, and is released otherwise; a call that finds \<open>16 <= len < 48\<close>
  does not change it. The thresholds of the queue of capacity 64 are 16, 32, 48.
\<close>

theorem flow_control_hysteresis:
  assumes "fst (doSIO now s)"
  shows "(\<not> flowControl s \<and> fifo_len (txFIFO s) < 48 \<longrightarrow> \<not> flowControl (snd (doSIO now s))) \<and>
         (\<not> flowControl s \<and> 48 \<le> fifo_len (txFIFO s) \<and> cfg_flwctr s \<noteq> 0 \<longrightarrow>
            flowControl (snd (doSIO now s)) \<and> txFIFO (snd (doSIO now s)) = txFIFO s) \<and>
         (\<not> flowControl s \<and> cfg_flwctr s = 0 \<longrightarrow> \<not> flowControl (snd (doSIO now s))) \<and>
         (flowControl s \<longrightarrow>
            flowControl (snd (doSIO now s)) = (16 \<le> fifo_len (txFIFO (snd (doSIO now s))))) \<and>
         (16 \<le> fifo_len (txFIFO s) \<and> fifo_len (txFIFO s) < 48 \<longrightarrow>
            flowControl (snd (doSIO now s)) = flowControl s) \<and>
         unat fifoLow = 16 \<and> unat fifoMed = 32 \<and> unat fifoHgh = 48 \<and>
         capacity (FIFO (unat fifoSize)) = 64"
proof -
  note f = doSIO_flow [OF assms]
  have 1: "\<not> flowControl s \<and> fifo_len (txFIFO s) < 48 \<longrightarrow> \<not> flowControl (snd (doSIO now s))"
    by (simp add: f(1))
  have 2: "\<not> flowControl s \<and> 48 \<le> fifo_len (txFIFO s) \<and> cfg_flwctr s \<noteq> 0 \<longrightarrow>
            flowControl (snd (doSIO now s)) \<and> txFIFO (snd (doSIO now s)) = txFIFO s"
    using f(3) by (auto simp: f(1))
  have 3: "\<not> flowControl s \<and> cfg_flwctr s = 0 \<longrightarrow> \<not> flowControl (snd (doSIO now s))"
    by (simp add: f(1))
  have 4: "flowControl s \<longrightarrow>
            flowControl (snd (doSIO now s)) = (16 \<le> fifo_len (txFIFO (snd (doSIO now s))))"
    by (simp add: f(1))
  have 5: "16 \<le> fifo_len (txFIFO s) \<and> fifo_len (txFIFO s) < 48 \<longrightarrow>
            flowControl (snd (doSIO now s)) = flowControl s"
    using f(2) by (auto simp: f(1))
  have 6: "capacity (FIFO (unat fifoSize)) = 64"
    by (simp add: capacity_FIFO fifoSize_def)
  show ?thesis
    using 1 2 3 4 5 6 unat_thresholds by blast
qed

lemma fifo_filled_len: "fifo_len (fifo_filled n) = n"
  by (simp add: fifo_filled_def fifo_len_def)

lemma sio_fields:
  "flowControl (sio n fc inp) = fc" "txFIFO (sio n fc inp) = fifo_filled n"
  "cfg_flwctr (sio n fc inp) = 4" "serial_in (sio n fc inp) = inp"
  "mode (sio n fc inp) = DATA_MODE" "escCount (sio n fc inp) = 0"
  "sregs (sio n fc inp) 2 = 43" "serial_out (sio n fc inp) = []" "PORTB (sio n fc inp) = 0"
  "cfg_dtecho (sio n fc inp) = 0"
  by (simp_all add: sio_def modem0_fields)

lemma sio_none_fields:
  "flowControl (sio_none n) = False" "txFIFO (sio_none n) = fifo_filled n"
  "cfg_flwctr (sio_none n) = 0" "serial_in (sio_none n) = []"
  "mode (sio_none n) = DATA_MODE" "escCount (sio_none n) = 0"
  by (simp_all add: sio_none_def modem0_fields)

lemma doSIO_runs: "mode s \<noteq> COMMAND_MODE \<Longrightarrow> escCount s \<noteq> 3 \<Longrightarrow> fst (doSIO now s)"
  by (simp add: doSIO_def doSIO_data_def doSIO_escape_def doSIO_count_keeps Let_def)

lemma sio_runs: "fst (doSIO now (sio n fc inp))" "fst (doSIO now (sio_none n))"
  by (simp_all add: doSIO_runs sio_fields sio_none_fields)

lemma sio_take_len:
  "n < 48 \<Longrightarrow> n < 32 \<or> \<not> fc \<Longrightarrow>
   fifo_len (txFIFO (snd (doSIO now (sio n fc [65])))) = Suc n"
  "fifo_len (txFIFO (snd (doSIO now (sio n fc [])))) = n"
  by (simp_all add: doSIO_def doSIO_data_def doSIO_escape_def doSIO_count_def doSIO_take_def
      doSIO_release_flow doSIO_drain_keeps Let_def sio_fields unat_thresholds serial_peek_def
      serial_read_def serial_write_def fifo_in_def fifo_full_def fifo_filled_def capacity_def
      fifo_len_def)


theorem flow_control_hysteresis_witness:
  "fst (doSIO 0 (sio 47 False [65])) \<and> \<not> flowControl (sio 47 False [65]) \<and>
   fifo_len (txFIFO (sio 47 False [65])) = 47 \<and>
   fifo_len (txFIFO (snd (doSIO 0 (sio 47 False [65])))) = 48 \<and>
   \<not> flowControl (snd (doSIO 0 (sio 47 False [65]))) \<and>
   fst (doSIO 0 (sio 48 False [65])) \<and> cfg_flwctr (sio 48 False [65]) \<noteq> 0 \<and>
   fifo_len (txFIFO (sio 48 False [65])) = 48 \<and>
   flowControl (snd (doSIO 0 (sio 48 False [65]))) \<and>
   fst (doSIO 0 (sio 16 True [])) \<and>
   fifo_len (txFIFO (snd (doSIO 0 (sio 16 True [])))) = 16 \<and>
   flowControl (snd (doSIO 0 (sio 16 True []))) \<and>
   fst (doSIO 0 (sio 15 True [])) \<and>
   fifo_len (txFIFO (snd (doSIO 0 (sio 15 True [])))) = 15 \<and>
   \<not> flowControl (snd (doSIO 0 (sio 15 True [])))"
proof -
  note a = flow_control_hysteresis [OF sio_runs(1) [of 0 47 False "[65]"]]
  note b = flow_control_hysteresis [OF sio_runs(1) [of 0 48 False "[65]"]]
  note c = flow_control_hysteresis [OF sio_runs(1) [of 0 16 True "[]"]]
  note d = flow_control_hysteresis [OF sio_runs(1) [of 0 15 True "[]"]]
  have a1: "\<not> flowControl (snd (doSIO 0 (sio 47 False [65])))"
    using conjunct1 [OF a] by (simp add: sio_fields fifo_filled_len)
  have b1: "flowControl (snd (doSIO 0 (sio 48 False [65])))"
    using conjunct1 [OF conjunct2 [OF b]] by (simp add: sio_fields fifo_filled_len)
  have c1: "flowControl (snd (doSIO 0 (sio 16 True [])))"
    using conjunct1 [OF conjunct2 [OF conjunct2 [OF conjunct2 [OF c]]]]
    by (simp add: sio_fields sio_take_len)
  have d1: "\<not> flowControl (snd (doSIO 0 (sio 15 True [])))"
    using conjunct1 [OF conjunct2 [OF conjunct2 [OF conjunct2 [OF d]]]]
    by (simp add: sio_fields sio_take_len)
  show ?thesis
    using a1 b1 c1 d1 by (simp add: sio_runs sio_fields fifo_filled_len sio_take_len)
qed

text \<open>
  Against claim C2 as worded: with no flow-control mode configured the bridge
  finds 48 bytes in the queue and backpressure stays off; with backpressure on and
  the queue down to 15 bytes, a call that accepts a pending byte ends with 16
  bytes and does not release it.
\<close>

theorem flow_control_counterexample:
  "fst (doSIO 0 (sio_none 48)) \<and> fifo_len (txFIFO (sio_none 48)) = 48 \<and>
   \<not> flowControl (snd (doSIO 0 (sio_none 48))) \<and>
   fst (doSIO 0 (sio 15 True [65])) \<and> flowControl (sio 15 True [65]) \<and>
   fifo_len (txFIFO (sio 15 True [65])) = 15 \<and>
   flowControl (snd (doSIO 0 (sio 15 True [65])))"
  by (simp add: doSIO_def doSIO_data_def doSIO_escape_def doSIO_count_def doSIO_take_def
      doSIO_release_def doSIO_drain_def Let_def sio_fields sio_none_fields unat_thresholds
      serial_peek_def serial_read_def serial_write_def fifo_in_def fifo_out_def fifo_full_def
      fifo_empty_def fifo_filled_def capacity_def fifo_len_def modem0_fields FIFO_def)

section \<open>The serial bridge: the escape sequence\<close>

lemma doSIO_take_keeps:
  "escCount (doSIO_take now av s) = escCount s" "escFirst (doSIO_take now av s) = escFirst s"
  "escLast (doSIO_take now av s) = escLast s" "mode (doSIO_take now av s) = mode s"
  "sregs (doSIO_take now av s) = sregs s" "guard (doSIO_take now av s) = guard s"
  by (simp_all add: doSIO_take_def Let_def serial_write_def serial_read_def split: list.splits)

lemma doSIO_take_serial:
  "set (serial_in (doSIO_take now av s)) \<subseteq> set (serial_in s)"
  by (auto simp: doSIO_take_def Let_def serial_write_def serial_read_def split: list.splits)

lemma doSIO_release_keeps:
  "escCount (doSIO_release s) = escCount s" "escFirst (doSIO_release s) = escFirst s"
  "escLast (doSIO_release s) = escLast s" "mode (doSIO_release s) = mode s"
  "sregs (doSIO_release s) = sregs s" "guard (doSIO_release s) = guard s"
  "serial_in (doSIO_release s) = serial_in s"
  by (simp_all add: doSIO_release_def Let_def serial_write_def)

lemma doSIO_drain_keeps2:
  "escFirst (doSIO_drain s) = escFirst s" "escLast (doSIO_drain s) = escLast s"
  "sregs (doSIO_drain s) = sregs s" "guard (doSIO_drain s) = guard s"
  "serial_in (doSIO_drain s) = serial_in s"
  by (simp_all add: doSIO_drain_def serial_write_def split: option.splits)

lemma doSIO_data_keeps:
  "escCount (snd (doSIO_data now av s)) = escCount s"
  "escFirst (snd (doSIO_data now av s)) = escFirst s"
  "escLast (snd (doSIO_data now av s)) = escLast s"
  "mode (snd (doSIO_data now av s)) = mode s"
  "sregs (snd (doSIO_data now av s)) = sregs s"
  "guard (snd (doSIO_data now av s)) = guard s"
  "set (serial_in (snd (doSIO_data now av s))) \<subseteq> set (serial_in s)"
  using doSIO_take_serial [of now av s]
  by (simp_all add: doSIO_data_def doSIO_drain_keeps doSIO_drain_keeps2 doSIO_release_keeps
      doSIO_take_keeps)

lemma doSIO_idle:
  assumes "escCount s \<noteq> 3"
  shows "mode (snd (doSIO now s)) = mode s" "sregs (snd (doSIO now s)) = sregs s"
    "guard (snd (doSIO now s)) = guard s"
    "set (serial_in (snd (doSIO now s))) \<subseteq> set (serial_in s)"
  using assms doSIO_data_keeps(7) [of now "serial_in s \<noteq> []"
      "doSIO_count now (serial_in s \<noteq> []) (doSIO_escape now (serial_in s \<noteq> []) s)"]
  by (simp_all add: doSIO_def Let_def doSIO_data_keeps doSIO_count_keeps doSIO_escape_def)

lemma doSIO_first:
  assumes "escCount s \<noteq> 3" and "serial_in s = c # rest" and "c = sregs s 2"
    and "unat (guard s) < unat (now - escFirst s)" and "unat (guard s) \<le> unat (now - lstChar s)"
  shows "escCount (snd (doSIO now s)) = 1" "escFirst (snd (doSIO now s)) = now"
  using assms
  by (simp_all add: doSIO_def Let_def doSIO_data_keeps doSIO_escape_def doSIO_count_def
      serial_peek_def)

lemma doSIO_next:
  assumes "escCount s \<noteq> 3" and "serial_in s = c # rest" and "c = sregs s 2"
    and "unat (now - escFirst s) \<le> unat (guard s)"
  shows "escCount (snd (doSIO now s)) = escCount s + 1"
    "escFirst (snd (doSIO now s)) = escFirst s"
    "escCount s + 1 = 3 \<Longrightarrow> escLast (snd (doSIO now s)) = now"
  using assms
  by (simp_all add: doSIO_def Let_def doSIO_data_keeps doSIO_escape_def doSIO_count_def
      serial_peek_def not_less [symmetric])

lemma doSIO_switch:
  assumes "escCount s = 3" and "unat (sregs s 12) * 20 < unat (now - escLast s)"
  shows "mode (snd (doSIO now s)) = COMMAND_MODE"
    "serial_out (snd (doSIO now s)) = serial_out s @ ok_reply" "\<not> fst (doSIO now s)"
  using assms
  by (simp_all add: doSIO_def Let_def doSIO_data_def doSIO_count_keeps doSIO_escape_def
      setMode_def)

lemma doSIO_cancel:
  assumes "escCount s = 3" and "unat (now - escLast s) \<le> unat (sregs s 12) * 20"
    and "serial_in s = c # rest" and "c \<noteq> 13" and "c \<noteq> 10" and "c \<noteq> sregs s 2"
  shows "escCount (snd (doSIO now s)) = 0" "mode (snd (doSIO now s)) = mode s"
  using assms
  by (simp_all add: doSIO_def Let_def doSIO_data_keeps doSIO_escape_def doSIO_count_def
      serial_peek_def not_less [symmetric] word_uint_eq_iff [symmetric])

lemma arrive_keeps:
  "escCount (arrive c s) = escCount s" "escFirst (arrive c s) = escFirst s"
  "escLast (arrive c s) = escLast s" "lstChar (arrive c s) = lstChar s"
  "mode (arrive c s) = mode s" "sregs (arrive c s) = sregs s" "guard (arrive c s) = guard s"
  "serial_in (arrive c s) = serial_in s @ [c]"
  by (simp_all add: arrive_def)

lemma all_same_snoc: "set xs \<subseteq> {e} \<Longrightarrow> \<exists>rest. xs @ [e] = e # rest"
  by (cases xs) auto

lemma escape_three:
  assumes m: "mode s0 \<noteq> COMMAND_MODE" and c0: "escCount s0 \<noteq> 3" and i0: "serial_in s0 = []"
    and g: "unat (guard s0) = unat (sregs s0 12) * 20" and e: "e = sregs s0 2"
    and t1: "unat (guard s0) < unat (t1 - escFirst s0)" "unat (guard s0) \<le> unat (t1 - lstChar s0)"
    and t2: "unat (t2 - t1) \<le> unat (guard s0)"
    and t3: "unat (t3 - t1) \<le> unat (guard s0)"
    and s1: "s1 = snd (doSIO t1 (arrive e s0))"
    and s2: "s2 = snd (doSIO t2 (arrive e s1))"
    and s3: "s3 = snd (doSIO t3 (arrive e s2))"
  shows "mode s3 = mode s0" "escCount s3 = 3" "escLast s3 = t3" "sregs s3 = sregs s0"
proof -
  let ?a0 = "arrive e s0"
  have a0: "escCount ?a0 \<noteq> 3" "serial_in ?a0 = e # []" "e = sregs ?a0 2"
    "unat (guard ?a0) < unat (t1 - escFirst ?a0)" "unat (guard ?a0) \<le> unat (t1 - lstChar ?a0)"
    using c0 i0 e t1 by (simp_all add: arrive_keeps)
  have f1: "escCount s1 = 1" "escFirst s1 = t1"
    using doSIO_first [OF a0] by (simp_all add: s1)
  have k1: "mode s1 = mode s0" "sregs s1 = sregs s0" "guard s1 = guard s0"
    "set (serial_in s1) \<subseteq> {e}"
    using doSIO_idle [OF a0(1), of t1] by (simp_all add: s1 arrive_keeps i0)
  let ?a1 = "arrive e s1"
  obtain r1 where r1: "serial_in ?a1 = e # r1"
    using all_same_snoc [OF k1(4)] by (auto simp: arrive_keeps)
  have a1: "escCount ?a1 \<noteq> 3" "e = sregs ?a1 2" "unat (t2 - escFirst ?a1) \<le> unat (guard ?a1)"
    using f1 k1 e t2 by (simp_all add: arrive_keeps)
  have f2: "escCount s2 = 2" "escFirst s2 = t1"
    using doSIO_next(1,2) [OF a1(1) r1 a1(2,3)] f1 by (simp_all add: s2 arrive_keeps)
  have k2: "mode s2 = mode s0" "sregs s2 = sregs s0" "guard s2 = guard s0"
    "set (serial_in s2) \<subseteq> {e}"
    using doSIO_idle [OF a1(1), of t2] k1 by (auto simp: s2 arrive_keeps)
  let ?a2 = "arrive e s2"
  obtain r2 where r2: "serial_in ?a2 = e # r2"
    using all_same_snoc [OF k2(4)] by (auto simp: arrive_keeps)
  have a2: "escCount ?a2 \<noteq> 3" "e = sregs ?a2 2" "unat (t3 - escFirst ?a2) \<le> unat (guard ?a2)"
    "escCount ?a2 + 1 = 3"
    using f2 k2 e t3 by (simp_all add: arrive_keeps)
  show "escCount s3 = 3"
    using doSIO_next(1) [OF a2(1) r2 a2(2,3)] f2 by (simp add: s3 arrive_keeps)
  show "escLast s3 = t3"
    using doSIO_next(3) [OF a2(1) r2 a2(2,3,4)] by (simp add: s3)
  show "mode s3 = mode s0" "sregs s3 = sregs s0"
    using doSIO_idle(1,2) [OF a2(1), of t3] k2 by (simp_all add: s3 arrive_keeps)
qed

text \<open>
  Claim C8, as the code has it. First part: the bridge is in data mode with
  nothing pending and no complete candidate sequence, and the guard time is the
  one \<open>init\<close> derives from S12. The escape character arrives and is seen by a call
  at \<open>t1\<close>, more than the guard time after the last first-escape time and at least
  the guard time after the last accepted character; it arrives again and is seen
  by calls at \<open>t2\<close> and \<open>t3\<close>, both no later than the guard time after \<open>t1\<close>. Then the
  bridge is still in data mode with a count of three, and a call at \<open>t4\<close>, more
  than the guard time after \<open>t3\<close>, switches to command mode, writes the
  acknowledgement and reports that no data was processed. Second part: a call
  made while a count of three waits for the silence to elapse, which finds a
  pending character that is neither CR nor LF nor the escape character, resets the
  count and leaves the mode alone, and so does every call after it, whenever made.
\<close>

theorem escape_sequence_guarded:
  "(mode s0 \<noteq> COMMAND_MODE \<and> escCount s0 \<noteq> 3 \<and> serial_in s0 = [] \<and>
    unat (guard s0) = unat (sregs s0 12) * 20 \<and> e = sregs s0 2 \<and>
    unat (guard s0) < unat (t1 - escFirst s0) \<and> unat (guard s0) \<le> unat (t1 - lstChar s0) \<and>
    unat (t2 - t1) \<le> unat (guard s0) \<and> unat (t3 - t1) \<le> unat (guard s0) \<and>
    unat (guard s0) < unat (t4 - t3) \<and>
    s1 = snd (doSIO t1 (arrive e s0)) \<and> s2 = snd (doSIO t2 (arrive e s1)) \<and>
    s3 = snd (doSIO t3 (arrive e s2))
    \<longrightarrow> mode s3 = mode s0 \<and> escCount s3 = 3 \<and>
        mode (snd (doSIO t4 s3)) = COMMAND_MODE \<and>
        serial_out (snd (doSIO t4 s3)) = serial_out s3 @ ok_reply \<and>
        \<not> fst (doSIO t4 s3)) \<and>
   (escCount s = 3 \<and> unat (now - escLast s) \<le> unat (sregs s 12) * 20 \<and>
    serial_in s = c # rest \<and> c \<noteq> 13 \<and> c \<noteq> 10 \<and> c \<noteq> sregs s 2
    \<longrightarrow> escCount (snd (doSIO now s)) = 0 \<and> mode (snd (doSIO now s)) = mode s \<and>
        mode (snd (doSIO t (snd (doSIO now s)))) = mode s)"
proof (intro conjI impI)
  assume a: "mode s0 \<noteq> COMMAND_MODE \<and> escCount s0 \<noteq> 3 \<and> serial_in s0 = [] \<and>
    unat (guard s0) = unat (sregs s0 12) * 20 \<and> e = sregs s0 2 \<and>
    unat (guard s0) < unat (t1 - escFirst s0) \<and> unat (guard s0) \<le> unat (t1 - lstChar s0) \<and>
    unat (t2 - t1) \<le> unat (guard s0) \<and> unat (t3 - t1) \<le> unat (guard s0) \<and>
    unat (guard s0) < unat (t4 - t3) \<and>
    s1 = snd (doSIO t1 (arrive e s0)) \<and> s2 = snd (doSIO t2 (arrive e s1)) \<and>
    s3 = snd (doSIO t3 (arrive e s2))"
  then have h: "mode s0 \<noteq> COMMAND_MODE" "escCount s0 \<noteq> 3" "serial_in s0 = []"
    "unat (guard s0) = unat (sregs s0 12) * 20" "e = sregs s0 2"
    "unat (guard s0) < unat (t1 - escFirst s0)" "unat (guard s0) \<le> unat (t1 - lstChar s0)"
    "unat (t2 - t1) \<le> unat (guard s0)" "unat (t3 - t1) \<le> unat (guard s0)"
    "s1 = snd (doSIO t1 (arrive e s0))" "s2 = snd (doSIO t2 (arrive e s1))"
    "s3 = snd (doSIO t3 (arrive e s2))"
    and t4: "unat (guard s0) < unat (t4 - t3)"
    by blast+
  note th = escape_three [OF h]
  show "mode s3 = mode s0" "escCount s3 = 3" by (rule th)+
  have "unat (sregs s3 12) * 20 < unat (t4 - escLast s3)"
    using t4 h(4) by (simp add: th)
  from doSIO_switch [OF th(2) this]
  show "mode (snd (doSIO t4 s3)) = COMMAND_MODE"
    "serial_out (snd (doSIO t4 s3)) = serial_out s3 @ ok_reply" "\<not> fst (doSIO t4 s3)"
    by blast+
next
  assume b: "escCount s = 3 \<and> unat (now - escLast s) \<le> unat (sregs s 12) * 20 \<and>
    serial_in s = c # rest \<and> c \<noteq> 13 \<and> c \<noteq> 10 \<and> c \<noteq> sregs s 2"
  then have h: "escCount s = 3" "unat (now - escLast s) \<le> unat (sregs s 12) * 20"
    "serial_in s = c # rest" "c \<noteq> 13" "c \<noteq> 10" "c \<noteq> sregs s 2"
    by blast+
  note cn = doSIO_cancel [OF h]
  show "escCount (snd (doSIO now s)) = 0" "mode (snd (doSIO now s)) = mode s" by (rule cn)+
  have "escCount (snd (doSIO now s)) \<noteq> 3" by (simp add: cn)
  from doSIO_idle(1) [OF this, of t]
  show "mode (snd (doSIO t (snd (doSIO now s)))) = mode s" by (simp add: cn)
qed

lemmas sio_defs = doSIO_def doSIO_data_def doSIO_escape_def doSIO_count_def doSIO_take_def
      doSIO_release_def doSIO_drain_def Let_def unat_thresholds setMode_def arrive_def
      serial_peek_def serial_read_def serial_write_def fifo_in_def fifo_out_def fifo_full_def
      fifo_empty_def capacity_def fifo_len_def FIFO_def ON_def OFF_def ok_reply_def

lemma typed_plus3:
  "escCount (typed [(5000, 43), (5100, 43), (5200, 43)] modem0) = 3"
  "serial_in (typed [(5000, 43), (5100, 43), (5200, 43)] modem0) = []"
  "serial_out (typed [(5000, 43), (5100, 43), (5200, 43)] modem0) = []"
  "escLast (typed [(5000, 43), (5100, 43), (5200, 43)] modem0) = 5200"
  "sregs (typed [(5000, 43), (5100, 43), (5200, 43)] modem0) 12 = 50"
  "sregs (typed [(5000, 43), (5100, 43), (5200, 43)] modem0) 2 = 43"
  "fifo_contents (txFIFO (typed [(5000, 43), (5100, 43), (5200, 43)] modem0)) = [43, 43, 43]"
  by (simp_all add: sio_defs modem0_fields modem0_timing_fields fifo_contents_def)

theorem escape_sequence_guarded_witness:
  "mode modem0 \<noteq> COMMAND_MODE \<and> escCount modem0 \<noteq> 3 \<and> serial_in modem0 = [] \<and>
   unat (guard modem0) = unat (sregs modem0 12) * 20 \<and> sregs modem0 2 = 43 \<and>
   mode (typed [(5000, 43), (5100, 43), (5200, 43)] modem0) = DATA_MODE \<and>
   escCount (typed [(5000, 43), (5100, 43), (5200, 43)] modem0) = 3 \<and>
   mode (snd (doSIO 6201 (typed [(5000, 43), (5100, 43), (5200, 43)] modem0))) = COMMAND_MODE \<and>
   serial_out (snd (doSIO 6201 (typed [(5000, 43), (5100, 43), (5200, 43)] modem0))) = ok_reply \<and>
   escCount (snd (doSIO 5300 (arrive 65 (typed [(5000, 43), (5100, 43), (5200, 43)] modem0)))) = 0 \<and>
   mode (snd (doSIO 9000 (snd (doSIO 5300
      (arrive 65 (typed [(5000, 43), (5100, 43), (5200, 43)] modem0)))))) = DATA_MODE"
proof -
  let ?s1 = "typed [(5000, 43)] modem0"
  let ?s2 = "typed [(5000, 43), (5100, 43)] modem0"
  let ?s3 = "typed [(5000, 43), (5100, 43), (5200, 43)] modem0"
  let ?w = "arrive 65 ?s3"
  note th = escape_sequence_guarded [of modem0 43 5000 5100 5200 6201 ?s1 ?s2 ?s3 ?w 5300 65 "[]" 9000]
  have h0: "mode modem0 \<noteq> COMMAND_MODE" "escCount modem0 \<noteq> 3" "serial_in modem0 = []"
    "unat (guard modem0) = unat (sregs modem0 12) * 20" "43 = sregs modem0 2"
    by (simp_all add: modem0_fields modem0_timing_fields)
  have ht: "unat (guard modem0) < unat (5000 - escFirst modem0)"
    "unat (guard modem0) \<le> unat (5000 - lstChar modem0)"
    "unat (5100 - 5000 :: u32) \<le> unat (guard modem0)"
    "unat (5200 - 5000 :: u32) \<le> unat (guard modem0)"
    "unat (guard modem0) < unat (6201 - 5200 :: u32)"
    by (simp_all add: modem0_fields modem0_timing_fields)
  have hs: "?s1 = snd (doSIO 5000 (arrive 43 modem0))" "?s2 = snd (doSIO 5100 (arrive 43 ?s1))"
    "?s3 = snd (doSIO 5200 (arrive 43 ?s2))"
    by (simp_all only: typed.simps)
  have hw: "escCount ?w = 3" "unat (5300 - escLast ?w) \<le> unat (sregs ?w 12) * 20"
    "serial_in ?w = 65 # []" "(65::u8) \<noteq> 13" "(65::u8) \<noteq> 10" "65 \<noteq> sregs ?w 2"
    by (simp_all add: arrive_keeps typed_plus3 del: typed.simps)
  have p1: "mode ?s3 = mode modem0 \<and> escCount ?s3 = 3 \<and>
        mode (snd (doSIO 6201 ?s3)) = COMMAND_MODE \<and>
        serial_out (snd (doSIO 6201 ?s3)) = serial_out ?s3 @ ok_reply \<and>
        \<not> fst (doSIO 6201 ?s3)"
    by (rule mp [OF conjunct1 [OF th]]) (intro conjI h0 ht hs)
  have p2: "escCount (snd (doSIO 5300 ?w)) = 0 \<and> mode (snd (doSIO 5300 ?w)) = mode ?w \<and>
        mode (snd (doSIO 9000 (snd (doSIO 5300 ?w)))) = mode ?w"
    by (rule mp [OF conjunct2 [OF th]]) (intro conjI hw)
  have mw: "mode ?w = DATA_MODE" using p1 by (simp add: arrive_keeps modem0_fields del: typed.simps)
  show ?thesis
    using p1 p2 mw
    by (simp add: typed_plus3 modem0_fields modem0_timing_fields del: typed.simps)
qed

text \<open>
  Against claim C8 as worded. Three escape characters 600 ms apart, each within
  the one-second guard window of the previous, the third 1200 ms after the first,
  then silence: the count stays at two and a call 1800 ms after the third leaves
  the bridge in data mode and writes nothing. And three escape characters 100 ms
  apart that follow another character by 100 ms, then silence: they are not
  counted and the bridge stays in data mode.
\<close>

theorem escape_sequence_counterexample:
  "sregs modem0 2 = 43 \<and> guard modem0 = 1000 \<and> unat (sregs modem0 12) * 20 = 1000 \<and>
   escCount (typed [(5000, 43), (5600, 43), (6200, 43)] modem0) = 2 \<and>
   fst (doSIO 8000 (typed [(5000, 43), (5600, 43), (6200, 43)] modem0)) \<and>
   mode (snd (doSIO 8000 (typed [(5000, 43), (5600, 43), (6200, 43)] modem0))) = DATA_MODE \<and>
   serial_out (snd (doSIO 8000 (typed [(5000, 43), (5600, 43), (6200, 43)] modem0))) = [] \<and>
   escCount (typed [(5000, 65), (5100, 43), (5200, 43), (5300, 43)] modem0) = 0 \<and>
   fst (doSIO 8000 (typed [(5000, 65), (5100, 43), (5200, 43), (5300, 43)] modem0)) \<and>
   mode (snd (doSIO 8000 (typed [(5000, 65), (5100, 43), (5200, 43), (5300, 43)] modem0)))
     = DATA_MODE \<and>
   serial_out (snd (doSIO 8000 (typed [(5000, 65), (5100, 43), (5200, 43), (5300, 43)] modem0)))
     = []"
  by (simp add: sio_defs modem0_fields modem0_timing_fields)

lemma sio_rts_fields:
  "flowControl (sio_rts n fc) = fc" "txFIFO (sio_rts n fc) = fifo_filled n"
  "cfg_flwctr (sio_rts n fc) = 3" "serial_in (sio_rts n fc) = []"
  "mode (sio_rts n fc) = DATA_MODE" "escCount (sio_rts n fc) = 0"
  "serial_out (sio_rts n fc) = []" "PORTB (sio_rts n fc) = 4"
  "rxFIFO (sio_rts n fc) = FIFO 6"
  by (simp_all add: sio_rts_def modem0_fields)

text \<open>
  Claim C3 at two inputs in RTS/CTS mode (\<open>flwctr = 3\<close>). With 48 bytes queued and
  backpressure off, the call engages backpressure by writing the XOFF byte 0x13;
  the control line PB2 stays high and the configuration now says 4. With
  backpressure on, 15 bytes queued and PB2 low, the call releases it by writing the
  XON byte 0x11; PB2 stays low.
\<close>

theorem flow_control_rts_sends_xoff:
  "cfg_flwctr (sio_rts 48 False) = 3 \<and> PORTB (sio_rts 48 False) = 4 \<and>
   fst (doSIO 0 (sio_rts 48 False)) \<and>
   flowControl (snd (doSIO 0 (sio_rts 48 False))) \<and>
   serial_out (snd (doSIO 0 (sio_rts 48 False))) = [19] \<and>
   PORTB (snd (doSIO 0 (sio_rts 48 False))) = 4 \<and>
   cfg_flwctr (snd (doSIO 0 (sio_rts 48 False))) = 4 \<and>
   cfg_flwctr ((sio_rts 15 True)\<lparr>PORTB := 0\<rparr>) = 3 \<and>
   fst (doSIO 0 ((sio_rts 15 True)\<lparr>PORTB := 0\<rparr>)) \<and>
   \<not> flowControl (snd (doSIO 0 ((sio_rts 15 True)\<lparr>PORTB := 0\<rparr>))) \<and>
   serial_out (snd (doSIO 0 ((sio_rts 15 True)\<lparr>PORTB := 0\<rparr>))) = [17] \<and>
   PORTB (snd (doSIO 0 ((sio_rts 15 True)\<lparr>PORTB := 0\<rparr>))) = 0"
  by (simp add: sio_defs sio_rts_fields fifo_filled_def)

end
